theory Spec2Isabelle
  imports Main
begin

section \<open>game.c: the board and its operations\<close>

text \<open>
  \<^verbatim>\<open>struct Game\<close> holds \<^verbatim>\<open>char board[3][3]\<close> and four function pointers that
  \<^verbatim>\<open>Game_init\<close> sets once and nothing changes afterwards; calls through them are
  modelled as direct calls. The nine bytes of the array are kept in row-major order, as C
  lays them out: \<^verbatim>\<open>board[i][j]\<close> is the byte at offset \<open>3 * i + j\<close>.
\<close>

type_synonym Game = "char list"

record Move =
  row :: int
  col :: int

definition Game_init :: Game where
  "Game_init = replicate 9 CHR '' ''"

definition cell :: "Game \<Rightarrow> int \<Rightarrow> int \<Rightarrow> char" where
  "cell g i j = g ! nat (3 * i + j)"

text \<open>
  \<^verbatim>\<open>self->board[row][col] = symbol\<close>, with no check of any kind and no return value.
  C computes the address from \<open>3 * row + col\<close>; when that offset is one of the nine bytes of
  the array the byte is overwritten, otherwise the store falls outside the array and its
  nine bytes keep their values.
\<close>

definition Game_makeMove :: "Game \<Rightarrow> int \<Rightarrow> int \<Rightarrow> char \<Rightarrow> Game" where
  "Game_makeMove g r c symbol =
     (if 0 \<le> 3 * r + c \<and> 3 * r + c < 9 then g[nat (3 * r + c) := symbol] else g)"

text \<open>The order in which every double loop \<^verbatim>\<open>for i < 3, for j < 3\<close> visits the cells.\<close>

definition cells :: "(int \<times> int) list" where
  "cells = [(0, 0), (0, 1), (0, 2), (1, 0), (1, 1), (1, 2), (2, 0), (2, 1), (2, 2)]"

definition Game_isMovesLeft :: "Game \<Rightarrow> bool" where
  "Game_isMovesLeft g = list_ex (\<lambda>(i, j). cell g i j = CHR '' '') cells"

fun check_rows :: "Game \<Rightarrow> int list \<Rightarrow> int option" where
  "check_rows g [] = None"
| "check_rows g (i # rest) =
     (if cell g i 0 \<noteq> CHR '' '' \<and> cell g i 0 = cell g i 1 \<and> cell g i 1 = cell g i 2
      then Some (if cell g i 0 = CHR ''X'' then 1 else - 1)
      else check_rows g rest)"

fun check_cols :: "Game \<Rightarrow> int list \<Rightarrow> int option" where
  "check_cols g [] = None"
| "check_cols g (j # rest) =
     (if cell g 0 j \<noteq> CHR '' '' \<and> cell g 0 j = cell g 1 j \<and> cell g 1 j = cell g 2 j
      then Some (if cell g 0 j = CHR ''X'' then 1 else - 1)
      else check_cols g rest)"

text \<open>Result codes of \<^verbatim>\<open>Game_checkWin\<close>: 1 X wins, -1 O wins, 0 draw, 2 ongoing.\<close>

definition Game_checkWin :: "Game \<Rightarrow> int" where
  "Game_checkWin g =
     (case check_rows g [0, 1, 2] of
        Some r \<Rightarrow> r
      | None \<Rightarrow>
         (case check_cols g [0, 1, 2] of
            Some r \<Rightarrow> r
          | None \<Rightarrow>
             if cell g 0 0 \<noteq> CHR '' '' \<and> cell g 0 0 = cell g 1 1 \<and> cell g 1 1 = cell g 2 2
             then (if cell g 0 0 = CHR ''X'' then 1 else - 1)
             else if cell g 0 2 \<noteq> CHR '' '' \<and> cell g 0 2 = cell g 1 1 \<and> cell g 1 1 = cell g 2 0
             then (if cell g 0 2 = CHR ''X'' then 1 else - 1)
             else if \<not> Game_isMovesLeft g then 0
             else 2))"

section \<open>ai.c: the search engine\<close>

text \<open>
  \<^verbatim>\<open>struct AI\<close>: the \<^verbatim>\<open>game\<close> pointer always addresses the one shared board, which is
  the \<open>game\<close> field of the machine state below; \<^verbatim>\<open>findBestMove\<close> always points to
  \<^verbatim>\<open>AI_findBestMove_impl\<close>.
\<close>

record AI =
  difficulty :: int
  verbose :: int

definition AI_setVerbose :: "AI \<Rightarrow> int \<Rightarrow> AI" where
  "AI_setVerbose ai v =
     (let v1 = (if v < 0 then 0 else v);
          v2 = (if v1 > 2 then 2 else v1)
      in ai\<lparr>verbose := v2\<rparr>)"

definition AI_setDifficulty :: "AI \<Rightarrow> int \<Rightarrow> AI" where
  "AI_setDifficulty ai level =
     (let l1 = (if level < 0 then 0 else level);
          l2 = (if l1 > 2 then 2 else l1)
      in ai\<lparr>difficulty := l2\<rparr>)"

text \<open>\<^verbatim>\<open>AI_init\<close>: difficulty Hard, verbosity 0 (seeding \<^verbatim>\<open>rand\<close> is not modelled).\<close>

definition AI_init :: AI where
  "AI_init = \<lparr>difficulty = 2, verbose = 0\<rparr>"

text \<open>
  The mutable memory the engine works on: the shared board and the two file-scope
  counters. \<^verbatim>\<open>printf\<close> output is not modelled. C \<^verbatim>\<open>int\<close> values are unbounded
  integers here, so the model is the program only where no C operation overflows: the
  top-level entries keep the depth within 0..9 and every score within \<open>[-10, 10]\<close>
  (\<open>value_bounds\<close>), and a statement about \<^verbatim>\<open>AI_minimax\<close> at a depth given from outside
  carries the range of depths as a hypothesis. \<open>Candidate\<close> stands for both
  \<^verbatim>\<open>Candidate\<close> and \<^verbatim>\<open>AICandidate\<close> (row, column, score).
\<close>

record state =
  game :: Game
  g_nodesSearched :: int
  g_maxDepthReached :: int

record Candidate =
  cand_row :: int
  cand_col :: int
  cand_score :: int

definition INT_MAX :: int where
  "INT_MAX = 2147483647"

definition AI_evaluate :: "Game \<Rightarrow> int" where
  "AI_evaluate g =
     (let s = Game_checkWin g
      in if s = - 1 then 10 else if s = 1 then - 10 else 0)"

text \<open>
  \<^verbatim>\<open>AI_minimax\<close> works on the board in place, so each loop iteration continues on
  the board its recursive call hands back. The first argument of the model bounds the
  depth of the recursion that is still allowed; \<open>None\<close> means the bound was hit.
  \<open>isMax\<close> is the C flag (1 or 0) as a truth value.
\<close>

function (sequential) AI_minimax :: "nat \<Rightarrow> state \<Rightarrow> int \<Rightarrow> bool \<Rightarrow> (int \<times> state) option"
  and max_loop :: "nat \<Rightarrow> (int \<times> int) list \<Rightarrow> state \<Rightarrow> int \<Rightarrow> int \<Rightarrow> (int \<times> state) option"
  and min_loop :: "nat \<Rightarrow> (int \<times> int) list \<Rightarrow> state \<Rightarrow> int \<Rightarrow> int \<Rightarrow> (int \<times> state) option"
where
  "AI_minimax 0 s depth isMax = None"
| "AI_minimax (Suc n) s depth isMax =
     (let s1 = (if depth > g_maxDepthReached s then s\<lparr>g_maxDepthReached := depth\<rparr> else s);
          s2 = s1\<lparr>g_nodesSearched := g_nodesSearched s1 + 1\<rparr>;
          score = AI_evaluate (game s2)
      in if score = 10 then Some (score - depth, s2)
         else if score = - 10 then Some (score + depth, s2)
         else if \<not> Game_isMovesLeft (game s2) then Some (0, s2)
         else if isMax then max_loop n cells s2 depth (- INT_MAX)
         else min_loop n cells s2 depth INT_MAX)"
| "max_loop n [] s depth best = Some (best, s)"
| "max_loop n ((i, j) # rest) s depth best =
     (if cell (game s) i j = CHR '' '' then
        (case AI_minimax n (s\<lparr>game := Game_makeMove (game s) i j CHR ''O''\<rparr>) (depth + 1) False of
           None \<Rightarrow> None
         | Some (val, s') \<Rightarrow>
             max_loop n rest (s'\<lparr>game := Game_makeMove (game s') i j CHR '' ''\<rparr>) depth
               (if val > best then val else best))
      else max_loop n rest s depth best)"
| "min_loop n [] s depth best = Some (best, s)"
| "min_loop n ((i, j) # rest) s depth best =
     (if cell (game s) i j = CHR '' '' then
        (case AI_minimax n (s\<lparr>game := Game_makeMove (game s) i j CHR ''X''\<rparr>) (depth + 1) True of
           None \<Rightarrow> None
         | Some (val, s') \<Rightarrow>
             min_loop n rest (s'\<lparr>game := Game_makeMove (game s') i j CHR '' ''\<rparr>) depth
               (if val < best then val else best))
      else min_loop n rest s depth best)"
  by pat_completeness auto
termination
  by (relation "measures
        [\<lambda>x. case x of Inl (n, _) \<Rightarrow> n | Inr (Inl (n, _)) \<Rightarrow> n | Inr (Inr (n, _)) \<Rightarrow> n,
         \<lambda>x. case x of Inl _ \<Rightarrow> 0 | Inr (Inl (_, cs, _)) \<Rightarrow> Suc (length cs)
                    | Inr (Inr (_, cs, _)) \<Rightarrow> Suc (length cs)]") auto

text \<open>
  Every top-level entry starts the search on a board with at least one mark just placed,
  so the recursion is at most nine calls deep (\<open>minimax_returns\<close> below).
\<close>

definition search_fuel :: nat where
  "search_fuel = 9"

text \<open>The scoring loop of \<^verbatim>\<open>AI_findBestMove_impl\<close>; \<open>cand\<close> is \<^verbatim>\<open>cand[0..n-1]\<close>.\<close>

fun find_loop ::
  "(int \<times> int) list \<Rightarrow> state \<Rightarrow> int \<Rightarrow> Move \<Rightarrow> Candidate list
     \<Rightarrow> (state \<times> int \<times> Move \<times> Candidate list) option" where
  "find_loop [] s bestVal bestMove cand = Some (s, bestVal, bestMove, cand)"
| "find_loop ((i, j) # rest) s bestVal bestMove cand =
     (if cell (game s) i j = CHR '' '' then
        (case AI_minimax search_fuel (s\<lparr>game := Game_makeMove (game s) i j CHR ''O''\<rparr>) 0 False of
           None \<Rightarrow> None
         | Some (moveVal, s') \<Rightarrow>
             (let s'' = s'\<lparr>game := Game_makeMove (game s') i j CHR '' ''\<rparr>;
                  cand' = cand @ [\<lparr>cand_row = i, cand_col = j, cand_score = moveVal\<rparr>]
              in if moveVal > bestVal
                 then find_loop rest s'' moveVal \<lparr>row = i, col = j\<rparr> cand'
                 else find_loop rest s'' bestVal bestMove cand'))
      else find_loop rest s bestVal bestMove cand)"

text \<open>The pool loop of the Medium branch: the indices \<open>k\<close> with \<^verbatim>\<open>cand[k].score >= threshold\<close>.\<close>

fun pool_loop :: "Candidate list \<Rightarrow> int \<Rightarrow> nat list \<Rightarrow> nat list \<Rightarrow> nat list" where
  "pool_loop cand threshold [] pool = pool"
| "pool_loop cand threshold (k # ks) pool =
     (if cand_score (cand ! k) \<ge> threshold
      then pool_loop cand threshold ks (pool @ [k])
      else pool_loop cand threshold ks pool)"

text \<open>
  \<^verbatim>\<open>AI_findBestMove_impl\<close>. \<open>rnd\<close> is the value \<^verbatim>\<open>rand()\<close> returns if the branch taken
  calls it (a non-negative \<^verbatim>\<open>int\<close>).
\<close>

definition AI_findBestMove_impl :: "AI \<Rightarrow> nat \<Rightarrow> state \<Rightarrow> (Move \<times> state) option" where
  "AI_findBestMove_impl self rnd s =
     (case find_loop cells (s\<lparr>g_nodesSearched := 0, g_maxDepthReached := 0\<rparr>)
             (- INT_MAX) \<lparr>row = - 1, col = - 1\<rparr> [] of
        None \<Rightarrow> None
      | Some (s', bestVal, bestMove, cand) \<Rightarrow>
          (let n = length cand
           in if n = 0 then Some (bestMove, s')
              else if difficulty self = 2 then Some (bestMove, s')
              else if difficulty self = 1 then
                (let threshold = (if bestVal - 2 < - 10 then - 10 else bestVal - 2);
                     pool = pool_loop cand threshold [0..<n] []
                 in if length pool > 0
                    then (let pick = pool ! (rnd mod length pool)
                          in Some (\<lparr>row = cand_row (cand ! pick), col = cand_col (cand ! pick)\<rparr>, s'))
                    else Some (bestMove, s'))
              else
                (let pool = [0..<n];
                     pick = pool ! (rnd mod length pool)
                 in Some (\<lparr>row = cand_row (cand ! pick), col = cand_col (cand ! pick)\<rparr>, s'))))"

text \<open>\<^verbatim>\<open>AI_getPrediction\<close>: -1 the AI (O) will win, 1 the player (X) will win, 0 draw.\<close>

fun predict_loop :: "(int \<times> int) list \<Rightarrow> state \<Rightarrow> int \<Rightarrow> (state \<times> int) option" where
  "predict_loop [] s bestVal = Some (s, bestVal)"
| "predict_loop ((i, j) # rest) s bestVal =
     (if cell (game s) i j = CHR '' '' then
        (case AI_minimax search_fuel (s\<lparr>game := Game_makeMove (game s) i j CHR ''O''\<rparr>) 0 False of
           None \<Rightarrow> None
         | Some (mv, s') \<Rightarrow>
             predict_loop rest (s'\<lparr>game := Game_makeMove (game s') i j CHR '' ''\<rparr>)
               (if mv > bestVal then mv else bestVal))
      else predict_loop rest s bestVal)"

definition AI_getPrediction :: "AI \<Rightarrow> state \<Rightarrow> (int \<times> state) option" where
  "AI_getPrediction ai s =
     (case predict_loop cells s (- INT_MAX) of
        None \<Rightarrow> None
      | Some (s', bestVal) \<Rightarrow>
          Some (if bestVal > 0 then - 1 else if bestVal < 0 then 1 else 0, s'))"

text \<open>
  \<^verbatim>\<open>AI_explain\<close>: \<open>out\<close> collects the entries written to \<^verbatim>\<open>out[0..]\<close>, \<open>n\<close> counts
  every legal move.
\<close>

fun explain_loop ::
  "(int \<times> int) list \<Rightarrow> int \<Rightarrow> state \<Rightarrow> Candidate list \<Rightarrow> int
     \<Rightarrow> (int \<times> Candidate list \<times> state) option" where
  "explain_loop [] maxOut s out n = Some (n, out, s)"
| "explain_loop ((i, j) # rest) maxOut s out n =
     (if cell (game s) i j = CHR '' '' then
        (case AI_minimax search_fuel (s\<lparr>game := Game_makeMove (game s) i j CHR ''O''\<rparr>) 0 False of
           None \<Rightarrow> None
         | Some (mv, s') \<Rightarrow>
             explain_loop rest maxOut (s'\<lparr>game := Game_makeMove (game s') i j CHR '' ''\<rparr>)
               (if n < maxOut then out @ [\<lparr>cand_row = i, cand_col = j, cand_score = mv\<rparr>] else out)
               (n + 1))
      else explain_loop rest maxOut s out n)"

definition AI_explain :: "AI \<Rightarrow> int \<Rightarrow> state \<Rightarrow> (int \<times> Candidate list \<times> state) option" where
  "AI_explain ai maxOut s =
     explain_loop cells maxOut (s\<lparr>g_nodesSearched := 0, g_maxDepthReached := 0\<rparr>) [] 0"

definition AI_getStats :: "state \<Rightarrow> int \<times> int" where
  "AI_getStats s = (g_nodesSearched s, g_maxDepthReached s)"

definition AI_resetStats :: "state \<Rightarrow> state" where
  "AI_resetStats s = s\<lparr>g_nodesSearched := 0, g_maxDepthReached := 0\<rparr>"

section \<open>main.c: the AI against AI match\<close>

text \<open>
  The loop of \<^verbatim>\<open>playAIVsAI\<close> without its display, pauses and statistics: the state is
  classified first; while the game is ongoing the AI whose turn it is (\<open>turn = 0\<close>: the
  first AI, playing X) calls \<^verbatim>\<open>AI_findBestMove\<close> and its own mark is placed on the move
  returned. The result is \<^verbatim>\<open>matchStats.winner\<close> (X, O or D) and the final state.
  \<open>rnd step\<close> is the value \<^verbatim>\<open>rand()\<close> gives in step \<open>step\<close>. The loop is a
  \<^verbatim>\<open>while (1)\<close>, so not returning is the value \<open>None\<close>. Both engines share the board
  and the counters; \<open>nodes0\<close> and \<open>depth0\<close> are the counters at the start.
\<close>

partial_function (option) play_loop ::
  "AI \<Rightarrow> AI \<Rightarrow> (int \<Rightarrow> nat) \<Rightarrow> state \<Rightarrow> int \<Rightarrow> int \<Rightarrow> (char \<times> state) option" where
  "play_loop ai1 ai2 rnd s turn step =
     (let st = Game_checkWin (game s)
      in if st = 1 then Some (CHR ''X'', s)
         else if st = - 1 then Some (CHR ''O'', s)
         else if st = 0 then Some (CHR ''D'', s)
         else (case AI_findBestMove_impl (if turn = 0 then ai1 else ai2) (rnd step) s of
                 None \<Rightarrow> None
               | Some (m, s') \<Rightarrow>
                   play_loop ai1 ai2 rnd
                     (s'\<lparr>game := Game_makeMove (game s') (row m) (col m)
                                  (if turn = 0 then CHR ''X'' else CHR ''O'')\<rparr>)
                     (1 - turn) (step + 1)))"

definition playAIVsAI :: "int \<Rightarrow> int \<Rightarrow> (int \<Rightarrow> nat) \<Rightarrow> int \<Rightarrow> int \<Rightarrow> (char \<times> state) option" where
  "playAIVsAI aiDifficulty1 aiDifficulty2 rnd nodes0 depth0 =
     play_loop (AI_setVerbose (AI_setDifficulty AI_init aiDifficulty1) 2)
               (AI_setVerbose (AI_setDifficulty AI_init aiDifficulty2) 2)
               rnd \<lparr>game = Game_init, g_nodesSearched = nodes0, g_maxDepthReached = depth0\<rparr> 0 1"

section \<open>The value of a search, as a function of the board\<close>

text \<open>
  \<open>empties\<close> counts the empty cells, \<open>legal\<close> lists them in loop order.
  \<open>minimax_value\<close> is the number \<^verbatim>\<open>AI_minimax\<close> returns, written as a function of
  the board, the depth and the side alone (\<open>minimax_returns\<close> proves that it is).
\<close>

definition empties :: "Game \<Rightarrow> nat" where
  "empties g = length (filter (\<lambda>x. x = CHR '' '') g)"

definition legal :: "Game \<Rightarrow> (int \<times> int) list" where
  "legal g = filter (\<lambda>(i, j). cell g i j = CHR '' '') cells"

lemma empties_update:
  "k < length g \<Longrightarrow> g ! k = CHR '' '' \<Longrightarrow> x \<noteq> CHR '' '' \<Longrightarrow> Suc (empties (g[k := x])) = empties g"
proof (induction g arbitrary: k)
  case Nil then show ?case by simp
next
  case (Cons a g)
  then show ?case by (cases k) (auto simp: empties_def)
qed

lemma cells_range: "(i, j) \<in> set cells \<Longrightarrow> 0 \<le> 3 * i + j \<and> 3 * i + j < 9"
  by (auto simp: cells_def)

lemma empties_makeMove:
  "length g = 9 \<Longrightarrow> (i, j) \<in> set cells \<Longrightarrow> cell g i j = CHR '' '' \<Longrightarrow> x \<noteq> CHR '' ''
   \<Longrightarrow> Suc (empties (Game_makeMove g i j x)) = empties g"
proof -
  assume a: "length g = 9" "(i, j) \<in> set cells" "cell g i j = CHR '' ''" "x \<noteq> CHR '' ''"
  from cells_range[OF a(2)] have r: "0 \<le> 3 * i + j" "3 * i + j < 9" by auto
  then have "nat (3 * i + j) < length g" using a(1) by simp
  from empties_update[OF this _ a(4)] a(3) r show ?thesis
    by (simp add: Game_makeMove_def cell_def)
qed

function minimax_value :: "Game \<Rightarrow> int \<Rightarrow> bool \<Rightarrow> int" where
  "minimax_value g depth isMax =
     (if length g \<noteq> 9 then 0
      else if AI_evaluate g = 10 then 10 - depth
      else if AI_evaluate g = - 10 then - 10 + depth
      else if \<not> Game_isMovesLeft g then 0
      else if isMax then
        foldl (\<lambda>best val. if val > best then val else best) (- INT_MAX)
          (map (\<lambda>(i, j). minimax_value (Game_makeMove g i j CHR ''O'') (depth + 1) False) (legal g))
      else
        foldl (\<lambda>best val. if val < best then val else best) INT_MAX
          (map (\<lambda>(i, j). minimax_value (Game_makeMove g i j CHR ''X'') (depth + 1) True) (legal g)))"
  by pat_completeness auto
termination
proof (relation "measure (\<lambda>(g, d, m). empties g)", goal_cases)
  case 1 show ?case by simp
next
  case (2 g depth isMax x xa y)
  then show ?case using empties_makeMove[of g xa y "CHR ''O''"] by (auto simp: legal_def)
next
  case (3 g depth isMax x xa y)
  then show ?case using empties_makeMove[of g xa y "CHR ''X''"] by (auto simp: legal_def)
qed

declare minimax_value.simps [simp del]

text \<open>
  \<^verbatim>\<open>AI_minimax\<close> returns whenever the depth bound exceeds the number of empty cells;
  it returns \<open>minimax_value\<close>, hands the board back as it received it, and only
  increases the counters.
\<close>

definition returns_value :: "nat \<Rightarrow> bool" where
  "returns_value n \<longleftrightarrow>
     (\<forall>s depth isMax. length (game s) = 9 \<and> empties (game s) < n \<longrightarrow>
        (\<exists>s'. AI_minimax n s depth isMax = Some (minimax_value (game s) depth isMax, s')
           \<and> game s' = game s
           \<and> g_nodesSearched s < g_nodesSearched s'
           \<and> g_maxDepthReached s \<le> g_maxDepthReached s'))"

lemma length_makeMove [simp]: "length (Game_makeMove g i j x) = length g"
  by (simp add: Game_makeMove_def)

lemma makeMove_undo:
  "cell g i j = CHR '' '' \<Longrightarrow> Game_makeMove (Game_makeMove g i j x) i j CHR '' '' = g"
proof -
  assume a: "cell g i j = CHR '' ''"
  have "g[nat (3 * i + j) := g ! nat (3 * i + j)] = g" by (rule list_update_id)
  with a show ?thesis by (simp add: Game_makeMove_def cell_def)
qed

lemma max_loop_value:
  assumes ih: "returns_value n"
  shows "length (game s) = 9 \<Longrightarrow> empties (game s) \<le> n \<Longrightarrow> set cs \<subseteq> set cells \<Longrightarrow>
    \<exists>s'. max_loop n cs s depth best =
        Some (foldl (\<lambda>best val. if val > best then val else best) best
               (map (\<lambda>(i, j). minimax_value (Game_makeMove (game s) i j CHR ''O'') (depth + 1) False)
                  (filter (\<lambda>(i, j). cell (game s) i j = CHR '' '') cs)), s')
      \<and> game s' = game s
      \<and> g_nodesSearched s \<le> g_nodesSearched s'
      \<and> g_maxDepthReached s \<le> g_maxDepthReached s'"
proof (induction cs arbitrary: s best)
  case Nil
  then show ?case by simp
next
  case (Cons p cs)
  obtain i j where p: "p = (i, j)" by (cases p)
  from Cons.prems have mem: "(i, j) \<in> set cells" and sub: "set cs \<subseteq> set cells"
    by (auto simp: p)
  show ?case
  proof (cases "cell (game s) i j = CHR '' ''")
    case False
    with Cons.IH[OF Cons.prems(1,2) sub, of best] show ?thesis by (simp add: p)
  next
    case True
    let ?s1 = "s\<lparr>game := Game_makeMove (game s) i j CHR ''O''\<rparr>"
    have e: "Suc (empties (game ?s1)) = empties (game s)"
      using empties_makeMove[OF Cons.prems(1) mem True, of "CHR ''O''"] by simp
    then have "length (game ?s1) = 9 \<and> empties (game ?s1) < n"
      using Cons.prems by simp
    with ih obtain s' where s': "AI_minimax n ?s1 (depth + 1) False
          = Some (minimax_value (game ?s1) (depth + 1) False, s')"
        "game s' = game ?s1" "g_nodesSearched ?s1 < g_nodesSearched s'"
        "g_maxDepthReached ?s1 \<le> g_maxDepthReached s'"
      unfolding returns_value_def by blast
    let ?s2 = "s'\<lparr>game := Game_makeMove (game s') i j CHR '' ''\<rparr>"
    have g2: "game ?s2 = game s" using s'(2) makeMove_undo[OF True] by simp
    let ?v = "minimax_value (Game_makeMove (game s) i j CHR ''O'') (depth + 1) False"
    from Cons.IH[of ?s2 "if ?v > best then ?v else best"] Cons.prems(1,2) sub g2
    obtain s3 where s3: "max_loop n cs ?s2 depth (if ?v > best then ?v else best) =
        Some (foldl (\<lambda>best val. if val > best then val else best) (if ?v > best then ?v else best)
               (map (\<lambda>(i, j). minimax_value (Game_makeMove (game s) i j CHR ''O'') (depth + 1) False)
                  (filter (\<lambda>(i, j). cell (game s) i j = CHR '' '') cs)), s3)"
       "game s3 = game s" "g_nodesSearched ?s2 \<le> g_nodesSearched s3"
       "g_maxDepthReached ?s2 \<le> g_maxDepthReached s3"
      by auto
    show ?thesis
      using True s' s3 by (simp add: p)
  qed
qed

lemma min_loop_value:
  assumes ih: "returns_value n"
  shows "length (game s) = 9 \<Longrightarrow> empties (game s) \<le> n \<Longrightarrow> set cs \<subseteq> set cells \<Longrightarrow>
    \<exists>s'. min_loop n cs s depth best =
        Some (foldl (\<lambda>best val. if val < best then val else best) best
               (map (\<lambda>(i, j). minimax_value (Game_makeMove (game s) i j CHR ''X'') (depth + 1) True)
                  (filter (\<lambda>(i, j). cell (game s) i j = CHR '' '') cs)), s')
      \<and> game s' = game s
      \<and> g_nodesSearched s \<le> g_nodesSearched s'
      \<and> g_maxDepthReached s \<le> g_maxDepthReached s'"
proof (induction cs arbitrary: s best)
  case Nil
  then show ?case by simp
next
  case (Cons p cs)
  obtain i j where p: "p = (i, j)" by (cases p)
  from Cons.prems have mem: "(i, j) \<in> set cells" and sub: "set cs \<subseteq> set cells"
    by (auto simp: p)
  show ?case
  proof (cases "cell (game s) i j = CHR '' ''")
    case False
    with Cons.IH[OF Cons.prems(1,2) sub, of best] show ?thesis by (simp add: p)
  next
    case True
    let ?s1 = "s\<lparr>game := Game_makeMove (game s) i j CHR ''X''\<rparr>"
    have e: "Suc (empties (game ?s1)) = empties (game s)"
      using empties_makeMove[OF Cons.prems(1) mem True, of "CHR ''X''"] by simp
    then have "length (game ?s1) = 9 \<and> empties (game ?s1) < n"
      using Cons.prems by simp
    with ih obtain s' where s': "AI_minimax n ?s1 (depth + 1) True
          = Some (minimax_value (game ?s1) (depth + 1) True, s')"
        "game s' = game ?s1" "g_nodesSearched ?s1 < g_nodesSearched s'"
        "g_maxDepthReached ?s1 \<le> g_maxDepthReached s'"
      unfolding returns_value_def by blast
    let ?s2 = "s'\<lparr>game := Game_makeMove (game s') i j CHR '' ''\<rparr>"
    have g2: "game ?s2 = game s" using s'(2) makeMove_undo[OF True] by simp
    let ?v = "minimax_value (Game_makeMove (game s) i j CHR ''X'') (depth + 1) True"
    from Cons.IH[of ?s2 "if ?v < best then ?v else best"] Cons.prems(1,2) sub g2
    obtain s3 where s3: "min_loop n cs ?s2 depth (if ?v < best then ?v else best) =
        Some (foldl (\<lambda>best val. if val < best then val else best) (if ?v < best then ?v else best)
               (map (\<lambda>(i, j). minimax_value (Game_makeMove (game s) i j CHR ''X'') (depth + 1) True)
                  (filter (\<lambda>(i, j). cell (game s) i j = CHR '' '') cs)), s3)"
       "game s3 = game s" "g_nodesSearched ?s2 \<le> g_nodesSearched s3"
       "g_maxDepthReached ?s2 \<le> g_maxDepthReached s3"
      by auto
    show ?thesis
      using True s' s3 by (simp add: p)
  qed
qed


lemma isMovesLeft_legal: "Game_isMovesLeft g \<longleftrightarrow> legal g \<noteq> []"
  by (auto simp: Game_isMovesLeft_def legal_def list_ex_iff filter_empty_conv)

lemma legal_empties: "length g = 9 \<Longrightarrow> legal g \<noteq> [] \<Longrightarrow> 0 < empties g"
proof -
  assume a: "length g = 9" "legal g \<noteq> []"
  then obtain i j where m: "(i, j) \<in> set cells" "cell g i j = CHR '' ''"
    by (auto simp: legal_def filter_empty_conv)
  from empties_makeMove[OF a(1) m, of "CHR ''O''"] show ?thesis by simp
qed

lemma returns_value_all: "returns_value n"
proof (induction n)
  case 0
  show ?case by (simp add: returns_value_def)
next
  case (Suc n)
  show ?case
    unfolding returns_value_def
  proof (intro allI impI, elim conjE)
    fix s :: state and depth :: int and isMax :: bool
    assume len: "length (game s) = 9" and emp: "empties (game s) < Suc n"
    let ?s1 = "if depth > g_maxDepthReached s then s\<lparr>g_maxDepthReached := depth\<rparr> else s"
    let ?s2 = "?s1\<lparr>g_nodesSearched := g_nodesSearched ?s1 + 1\<rparr>"
    have g2: "game ?s2 = game s" by simp
    have c2: "g_nodesSearched s < g_nodesSearched ?s2" "g_maxDepthReached s \<le> g_maxDepthReached ?s2"
      by simp_all
    have len2: "length (game ?s2) = 9" and emp2: "empties (game ?s2) \<le> n"
      using len emp by simp_all
    from max_loop_value[OF Suc len2 emp2 subset_refl, of depth "- INT_MAX"]
    obtain sa where sa: "max_loop n cells ?s2 depth (- INT_MAX) =
        Some (foldl (\<lambda>best val. if val > best then val else best) (- INT_MAX)
               (map (\<lambda>(i, j). minimax_value (Game_makeMove (game s) i j CHR ''O'') (depth + 1) False)
                  (legal (game s))), sa)"
      "game sa = game s" "g_nodesSearched ?s2 \<le> g_nodesSearched sa"
      "g_maxDepthReached ?s2 \<le> g_maxDepthReached sa"
      unfolding legal_def g2 by blast
    from min_loop_value[OF Suc len2 emp2 subset_refl, of depth "INT_MAX"]
    obtain sb where sb: "min_loop n cells ?s2 depth INT_MAX =
        Some (foldl (\<lambda>best val. if val < best then val else best) INT_MAX
               (map (\<lambda>(i, j). minimax_value (Game_makeMove (game s) i j CHR ''X'') (depth + 1) True)
                  (legal (game s))), sb)"
      "game sb = game s" "g_nodesSearched ?s2 \<le> g_nodesSearched sb"
      "g_maxDepthReached ?s2 \<le> g_maxDepthReached sb"
      unfolding legal_def g2 by blast
    have unf: "AI_minimax (Suc n) s depth isMax =
       (if AI_evaluate (game s) = 10 then Some (10 - depth, ?s2)
        else if AI_evaluate (game s) = - 10 then Some (- 10 + depth, ?s2)
        else if \<not> Game_isMovesLeft (game s) then Some (0, ?s2)
        else if isMax then max_loop n cells ?s2 depth (- INT_MAX)
        else min_loop n cells ?s2 depth INT_MAX)"
      by (simp add: Let_def)
    show "\<exists>s'. AI_minimax (Suc n) s depth isMax = Some (minimax_value (game s) depth isMax, s')
           \<and> game s' = game s
           \<and> g_nodesSearched s < g_nodesSearched s'
           \<and> g_maxDepthReached s \<le> g_maxDepthReached s'"
    proof -
      consider (w) "AI_evaluate (game s) = 10"
        | (l) "AI_evaluate (game s) \<noteq> 10" "AI_evaluate (game s) = - 10"
        | (d) "AI_evaluate (game s) \<noteq> 10" "AI_evaluate (game s) \<noteq> - 10" "\<not> Game_isMovesLeft (game s)"
        | (mx) "AI_evaluate (game s) \<noteq> 10" "AI_evaluate (game s) \<noteq> - 10" "Game_isMovesLeft (game s)" "isMax"
        | (mn) "AI_evaluate (game s) \<noteq> 10" "AI_evaluate (game s) \<noteq> - 10" "Game_isMovesLeft (game s)" "\<not> isMax"
        by blast
      then show ?thesis
      proof cases
        case w
        then show ?thesis using len c2 g2 unfolding unf minimax_value.simps[of "game s"] by simp
      next
        case l
        then show ?thesis using len c2 g2 unfolding unf minimax_value.simps[of "game s"] by simp
      next
        case d
        then show ?thesis using len c2 g2 unfolding unf minimax_value.simps[of "game s"] by simp
      next
        case mx
        have "AI_minimax (Suc n) s depth isMax = max_loop n cells ?s2 depth (- INT_MAX)"
          unfolding unf using mx by simp
        moreover have "minimax_value (game s) depth isMax =
            foldl (\<lambda>best val. if val > best then val else best) (- INT_MAX)
               (map (\<lambda>(i, j). minimax_value (Game_makeMove (game s) i j CHR ''O'') (depth + 1) False)
                  (legal (game s)))"
          using mx len by (subst minimax_value.simps) simp
        ultimately show ?thesis using sa c2 by (intro exI[of _ sa]) (simp del: AI_minimax.simps)
      next
        case mn
        have "AI_minimax (Suc n) s depth isMax = min_loop n cells ?s2 depth INT_MAX"
          unfolding unf using mn by simp
        moreover have "minimax_value (game s) depth isMax =
            foldl (\<lambda>best val. if val < best then val else best) INT_MAX
               (map (\<lambda>(i, j). minimax_value (Game_makeMove (game s) i j CHR ''X'') (depth + 1) True)
                  (legal (game s)))"
          using mn len by (subst minimax_value.simps) simp
        ultimately show ?thesis using sb c2 by (intro exI[of _ sb]) (simp del: AI_minimax.simps)
      qed
    qed
  qed
qed

lemma minimax_returns:
  "length (game s) = 9 \<Longrightarrow> empties (game s) < n \<Longrightarrow>
   \<exists>s'. AI_minimax n s depth isMax = Some (minimax_value (game s) depth isMax, s')
      \<and> game s' = game s
      \<and> g_nodesSearched s < g_nodesSearched s'
      \<and> g_maxDepthReached s \<le> g_maxDepthReached s'"
  using returns_value_all[of n] unfolding returns_value_def by blast

subsection \<open>The top-level loops\<close>

text \<open>
  \<open>score g i j\<close> is the top-level score of the legal move \<open>(i, j)\<close>: the value of the
  board with an O placed there, searched at depth 0 with X to move. \<open>candidates\<close> lists
  every legal move with its score, in loop order.
\<close>

definition score :: "Game \<Rightarrow> int \<Rightarrow> int \<Rightarrow> int" where
  "score g i j = minimax_value (Game_makeMove g i j CHR ''O'') 0 False"

definition candidates :: "Game \<Rightarrow> Candidate list" where
  "candidates g =
     map (\<lambda>(i, j). \<lparr>cand_row = i, cand_col = j, cand_score = score g i j\<rparr>) (legal g)"

definition cands_of :: "Game \<Rightarrow> (int \<times> int) list \<Rightarrow> Candidate list" where
  "cands_of g cs =
     map (\<lambda>(i, j). \<lparr>cand_row = i, cand_col = j, cand_score = score g i j\<rparr>)
       (filter (\<lambda>(i, j). cell g i j = CHR '' '') cs)"

definition move_of :: "Candidate \<Rightarrow> Move" where
  "move_of c = \<lparr>row = cand_row c, col = cand_col c\<rparr>"

definition track_best :: "int \<times> Move \<Rightarrow> Candidate \<Rightarrow> int \<times> Move" where
  "track_best b c = (if cand_score c > fst b then (cand_score c, move_of c) else b)"

lemma empties_le_length: "empties g \<le> length g"
  by (simp add: empties_def)

lemma top_step:
  assumes len: "length (game s) = 9" and mem: "(i, j) \<in> set cells"
    and free: "cell (game s) i j = CHR '' ''"
  shows "\<exists>s'. AI_minimax search_fuel (s\<lparr>game := Game_makeMove (game s) i j CHR ''O''\<rparr>) 0 False
            = Some (score (game s) i j, s')
        \<and> Game_makeMove (game s') i j CHR '' '' = game s
        \<and> g_nodesSearched s < g_nodesSearched s'
        \<and> g_maxDepthReached s \<le> g_maxDepthReached s'"
proof -
  let ?s1 = "s\<lparr>game := Game_makeMove (game s) i j CHR ''O''\<rparr>"
  have "Suc (empties (game ?s1)) = empties (game s)"
    using empties_makeMove[OF len mem free, of "CHR ''O''"] by simp
  with empties_le_length[of "game s"] len have "empties (game ?s1) < search_fuel"
    by (simp add: search_fuel_def)
  moreover have "length (game ?s1) = 9" using len by simp
  ultimately obtain s' where
    "AI_minimax search_fuel ?s1 0 False = Some (minimax_value (game ?s1) 0 False, s')"
    "game s' = game ?s1" "g_nodesSearched ?s1 < g_nodesSearched s'"
    "g_maxDepthReached ?s1 \<le> g_maxDepthReached s'"
    using minimax_returns[of ?s1 search_fuel 0 False] by blast
  then show ?thesis using makeMove_undo[OF free, of "CHR ''O''"]
    by (intro exI[of _ s']) (simp add: score_def)
qed

lemma cands_of_Cons_free:
  "cell g i j = CHR '' '' \<Longrightarrow>
   cands_of g ((i, j) # cs) = \<lparr>cand_row = i, cand_col = j, cand_score = score g i j\<rparr> # cands_of g cs"
  by (simp add: cands_of_def)

lemma cands_of_Cons_taken:
  "cell g i j \<noteq> CHR '' '' \<Longrightarrow> cands_of g ((i, j) # cs) = cands_of g cs"
  by (simp add: cands_of_def)

lemma cands_of_cells: "cands_of g cells = candidates g"
  by (simp add: cands_of_def candidates_def legal_def)

lemma find_loop_result:
  "length (game s) = 9 \<Longrightarrow> set cs \<subseteq> set cells \<Longrightarrow>
   \<exists>s'. find_loop cs s bestVal bestMove cand =
          Some (s', fst (foldl track_best (bestVal, bestMove) (cands_of (game s) cs)),
                snd (foldl track_best (bestVal, bestMove) (cands_of (game s) cs)),
                cand @ cands_of (game s) cs)
      \<and> game s' = game s
      \<and> g_nodesSearched s \<le> g_nodesSearched s'
      \<and> g_maxDepthReached s \<le> g_maxDepthReached s'"
proof (induction cs arbitrary: s bestVal bestMove cand)
  case Nil
  then show ?case by (simp add: cands_of_def)
next
  case (Cons p cs)
  obtain i j where p: "p = (i, j)" by (cases p)
  from Cons.prems have mem: "(i, j) \<in> set cells" and sub: "set cs \<subseteq> set cells"
    by (auto simp: p)
  show ?case
  proof (cases "cell (game s) i j = CHR '' ''")
    case False
    with Cons.IH[OF Cons.prems(1) sub, of bestVal bestMove cand] show ?thesis
      by (simp add: p cands_of_Cons_taken)
  next
    case True
    from top_step[OF Cons.prems(1) mem True] obtain s1 where s1:
      "AI_minimax search_fuel (s\<lparr>game := Game_makeMove (game s) i j CHR ''O''\<rparr>) 0 False
         = Some (score (game s) i j, s1)"
      "Game_makeMove (game s1) i j CHR '' '' = game s"
      "g_nodesSearched s < g_nodesSearched s1" "g_maxDepthReached s \<le> g_maxDepthReached s1"
      by blast
    let ?s2 = "s1\<lparr>game := Game_makeMove (game s1) i j CHR '' ''\<rparr>"
    let ?c = "\<lparr>cand_row = i, cand_col = j, cand_score = score (game s) i j\<rparr>"
    have g2: "game ?s2 = game s" using s1(2) by simp
    have len2: "length (game ?s2) = 9" using g2 Cons.prems(1) by simp
    let ?b = "track_best (bestVal, bestMove) ?c"
    from Cons.IH[OF len2 sub, of "fst ?b" "snd ?b" "cand @ [?c]"]
    obtain s3 where s3: "find_loop cs ?s2 (fst ?b) (snd ?b) (cand @ [?c]) =
          Some (s3, fst (foldl track_best ?b (cands_of (game s) cs)),
                snd (foldl track_best ?b (cands_of (game s) cs)),
                (cand @ [?c]) @ cands_of (game s) cs)"
      "game s3 = game s" "g_nodesSearched ?s2 \<le> g_nodesSearched s3"
      "g_maxDepthReached ?s2 \<le> g_maxDepthReached s3"
      unfolding g2 by auto
    have step: "find_loop ((i, j) # cs) s bestVal bestMove cand
        = find_loop cs ?s2 (fst ?b) (snd ?b) (cand @ [?c])"
      using True s1(1) by (simp add: Let_def track_best_def move_of_def)
    show ?thesis
      unfolding p step using s3 s1(3,4) True
      by (intro exI[of _ s3]) (simp add: cands_of_Cons_free)
  qed
qed


lemma predict_loop_result:
  "length (game s) = 9 \<Longrightarrow> set cs \<subseteq> set cells \<Longrightarrow>
   \<exists>s'. predict_loop cs s bestVal =
          Some (s', foldl (\<lambda>best val. if val > best then val else best) bestVal
                      (map cand_score (cands_of (game s) cs)))
      \<and> game s' = game s
      \<and> g_nodesSearched s + int (length (cands_of (game s) cs)) \<le> g_nodesSearched s'
      \<and> g_maxDepthReached s \<le> g_maxDepthReached s'"
proof (induction cs arbitrary: s bestVal)
  case Nil
  then show ?case by (simp add: cands_of_def)
next
  case (Cons p cs)
  obtain i j where p: "p = (i, j)" by (cases p)
  from Cons.prems have mem: "(i, j) \<in> set cells" and sub: "set cs \<subseteq> set cells"
    by (auto simp: p)
  show ?case
  proof (cases "cell (game s) i j = CHR '' ''")
    case False
    with Cons.IH[OF Cons.prems(1) sub, of bestVal] show ?thesis
      by (simp add: p cands_of_Cons_taken)
  next
    case True
    from top_step[OF Cons.prems(1) mem True] obtain s1 where s1:
      "AI_minimax search_fuel (s\<lparr>game := Game_makeMove (game s) i j CHR ''O''\<rparr>) 0 False
         = Some (score (game s) i j, s1)"
      "Game_makeMove (game s1) i j CHR '' '' = game s"
      "g_nodesSearched s < g_nodesSearched s1" "g_maxDepthReached s \<le> g_maxDepthReached s1"
      by blast
    let ?s2 = "s1\<lparr>game := Game_makeMove (game s1) i j CHR '' ''\<rparr>"
    let ?v = "score (game s) i j"
    have g2: "game ?s2 = game s" using s1(2) by simp
    have len2: "length (game ?s2) = 9" using g2 Cons.prems(1) by simp
    from Cons.IH[OF len2 sub, of "if ?v > bestVal then ?v else bestVal"]
    obtain s3 where s3: "predict_loop cs ?s2 (if ?v > bestVal then ?v else bestVal) =
          Some (s3, foldl (\<lambda>best val. if val > best then val else best)
                      (if ?v > bestVal then ?v else bestVal)
                      (map cand_score (cands_of (game s) cs)))"
      "game s3 = game s"
      "g_nodesSearched ?s2 + int (length (cands_of (game s) cs)) \<le> g_nodesSearched s3"
      "g_maxDepthReached ?s2 \<le> g_maxDepthReached s3"
      unfolding g2 by auto
    have step: "predict_loop ((i, j) # cs) s bestVal
        = predict_loop cs ?s2 (if ?v > bestVal then ?v else bestVal)"
      using True s1(1) by simp
    show ?thesis
      unfolding p step using s3 s1(3,4) True
      by (intro exI[of _ s3]) (simp add: cands_of_Cons_free)
  qed
qed

lemma explain_loop_result:
  "length (game s) = 9 \<Longrightarrow> set cs \<subseteq> set cells \<Longrightarrow>
   \<exists>s'. explain_loop cs maxOut s out n =
          Some (n + int (length (cands_of (game s) cs)),
                out @ take (nat (maxOut - n)) (cands_of (game s) cs), s')
      \<and> game s' = game s
      \<and> g_nodesSearched s \<le> g_nodesSearched s'
      \<and> g_maxDepthReached s \<le> g_maxDepthReached s'"
proof (induction cs arbitrary: s out n)
  case Nil
  then show ?case by (simp add: cands_of_def)
next
  case (Cons p cs)
  obtain i j where p: "p = (i, j)" by (cases p)
  from Cons.prems have mem: "(i, j) \<in> set cells" and sub: "set cs \<subseteq> set cells"
    by (auto simp: p)
  show ?case
  proof (cases "cell (game s) i j = CHR '' ''")
    case False
    with Cons.IH[OF Cons.prems(1) sub, of out n] show ?thesis
      by (simp add: p cands_of_Cons_taken)
  next
    case True
    from top_step[OF Cons.prems(1) mem True] obtain s1 where s1:
      "AI_minimax search_fuel (s\<lparr>game := Game_makeMove (game s) i j CHR ''O''\<rparr>) 0 False
         = Some (score (game s) i j, s1)"
      "Game_makeMove (game s1) i j CHR '' '' = game s"
      "g_nodesSearched s < g_nodesSearched s1" "g_maxDepthReached s \<le> g_maxDepthReached s1"
      by blast
    let ?s2 = "s1\<lparr>game := Game_makeMove (game s1) i j CHR '' ''\<rparr>"
    let ?c = "\<lparr>cand_row = i, cand_col = j, cand_score = score (game s) i j\<rparr>"
    let ?out = "if n < maxOut then out @ [?c] else out"
    have g2: "game ?s2 = game s" using s1(2) by simp
    have len2: "length (game ?s2) = 9" using g2 Cons.prems(1) by simp
    from Cons.IH[OF len2 sub, of ?out "n + 1"]
    obtain s3 where s3: "explain_loop cs maxOut ?s2 ?out (n + 1) =
          Some (n + 1 + int (length (cands_of (game s) cs)),
                ?out @ take (nat (maxOut - (n + 1))) (cands_of (game s) cs), s3)"
      "game s3 = game s" "g_nodesSearched ?s2 \<le> g_nodesSearched s3"
      "g_maxDepthReached ?s2 \<le> g_maxDepthReached s3"
      unfolding g2 by auto
    have step: "explain_loop ((i, j) # cs) maxOut s out n
        = explain_loop cs maxOut ?s2 ?out (n + 1)"
      using True s1(1) by simp
    have tk: "?out @ take (nat (maxOut - (n + 1))) (cands_of (game s) cs)
        = out @ take (nat (maxOut - n)) (?c # cands_of (game s) cs)"
    proof (cases "n < maxOut")
      case True
      then have "nat (maxOut - n) = Suc (nat (maxOut - (n + 1)))" by simp
      then show ?thesis using True by simp
    next
      case False
      then show ?thesis by simp
    qed
    show ?thesis
      unfolding p step using s3 s1(3,4) True tk
      by (intro exI[of _ s3]) (simp add: cands_of_Cons_free)
  qed
qed

subsection \<open>The running maximum and minimum\<close>

lemma run_max_ge_init: "init \<le> foldl (\<lambda>best val. if val > best then val else best) init (vs :: int list)"
proof (induction vs arbitrary: init)
  case Nil show ?case by simp
next
  case (Cons v vs)
  have "(if v > init then v else init) \<le>
        foldl (\<lambda>best val. if val > best then val else best) (if v > init then v else init) vs"
    by (rule Cons.IH)
  then show ?case by (simp split: if_splits)
qed

lemma run_max_ge_mem:
  "v \<in> set vs \<Longrightarrow> v \<le> foldl (\<lambda>best val. if val > best then val else best) init (vs :: int list)"
proof (induction vs arbitrary: init)
  case Nil then show ?case by simp
next
  case (Cons a vs)
  show ?case
  proof (cases "v = a")
    case True
    have "(if a > init then a else init) \<le>
        foldl (\<lambda>best val. if val > best then val else best) (if a > init then a else init) vs"
      by (rule run_max_ge_init)
    then show ?thesis using True by (simp split: if_splits)
  next
    case False
    with Cons.prems have "v \<in> set vs" by simp
    from Cons.IH[OF this] show ?thesis by simp
  qed
qed

lemma run_max_mem:
  "foldl (\<lambda>best val. if val > best then val else best) init (vs :: int list) \<in> set (init # vs)"
proof (induction vs arbitrary: init)
  case Nil show ?case by simp
next
  case (Cons a vs)
  from Cons.IH[of "if a > init then a else init"] show ?case by (auto split: if_splits)
qed

lemma run_max_eq_Max:
  "foldl (\<lambda>best val. if val > best then val else best) init (vs :: int list) = Max (set (init # vs))"
proof (rule sym, rule Max_eqI)
  show "finite (set (init # vs))" by simp
next
  fix y assume "y \<in> set (init # vs)"
  then show "y \<le> foldl (\<lambda>best val. if val > best then val else best) init vs"
    using run_max_ge_init[of init vs] run_max_ge_mem[of y vs init] by auto
next
  show "foldl (\<lambda>best val. if val > best then val else best) init vs \<in> set (init # vs)"
    by (rule run_max_mem)
qed

lemma run_min_le_init: "foldl (\<lambda>best val. if val < best then val else best) init (vs :: int list) \<le> init"
proof (induction vs arbitrary: init)
  case Nil show ?case by simp
next
  case (Cons v vs)
  have "foldl (\<lambda>best val. if val < best then val else best) (if v < init then v else init) vs
        \<le> (if v < init then v else init)"
    by (rule Cons.IH)
  then show ?case by (simp split: if_splits)
qed

lemma run_min_le_mem:
  "v \<in> set vs \<Longrightarrow> foldl (\<lambda>best val. if val < best then val else best) init (vs :: int list) \<le> v"
proof (induction vs arbitrary: init)
  case Nil then show ?case by simp
next
  case (Cons a vs)
  show ?case
  proof (cases "v = a")
    case True
    have "foldl (\<lambda>best val. if val < best then val else best) (if a < init then a else init) vs
        \<le> (if a < init then a else init)"
      by (rule run_min_le_init)
    then show ?thesis using True by (simp split: if_splits)
  next
    case False
    with Cons.prems have "v \<in> set vs" by simp
    from Cons.IH[OF this] show ?thesis by simp
  qed
qed

lemma run_min_mem:
  "foldl (\<lambda>best val. if val < best then val else best) init (vs :: int list) \<in> set (init # vs)"
proof (induction vs arbitrary: init)
  case Nil show ?case by simp
next
  case (Cons a vs)
  from Cons.IH[of "if a < init then a else init"] show ?case by (auto split: if_splits)
qed


subsection \<open>Range of the values\<close>

lemma value_bounds:
  "0 \<le> d \<Longrightarrow> d + int (empties g) \<le> 10 \<Longrightarrow>
   d - 10 \<le> minimax_value g d m \<and> minimax_value g d m \<le> 10 - d"
proof (induction g d m rule: minimax_value.induct)
  case (1 g depth isMax)
  show ?case
  proof (cases "length g = 9 \<and> AI_evaluate g \<noteq> 10 \<and> AI_evaluate g \<noteq> - 10 \<and> Game_isMovesLeft g")
    case False
    then show ?thesis using "1.prems" by (subst (1 2) minimax_value.simps) auto
  next
    case True
    then have len: "length g = 9" and ne: "legal g \<noteq> []"
      by (simp_all add: isMovesLeft_legal)
    have mem: "\<And>i j. (i, j) \<in> set (legal g) \<Longrightarrow> (i, j) \<in> set cells \<and> cell g i j = CHR '' ''"
      by (auto simp: legal_def)
    have dec: "\<And>i j x. (i, j) \<in> set (legal g) \<Longrightarrow> x \<noteq> CHR '' '' \<Longrightarrow>
        depth + 1 + int (empties (Game_makeMove g i j x)) \<le> 10"
    proof -
      fix i j x assume a: "(i, j) \<in> set (legal g)" "x \<noteq> CHR '' ''"
      from empties_makeMove[OF len _ _ a(2), of i j] mem[OF a(1)]
      have "Suc (empties (Game_makeMove g i j x)) = empties g" by simp
      then show "depth + 1 + int (empties (Game_makeMove g i j x)) \<le> 10"
        using "1.prems"(2) by linarith
    qed
    have dle: "depth \<le> 10" using "1.prems"(2) by linarith
    show ?thesis
    proof (cases isMax)
      case True
      let ?vs = "map (\<lambda>(i, j). minimax_value (Game_makeMove g i j CHR ''O'') (depth + 1) False) (legal g)"
      have ch: "\<And>v. v \<in> set ?vs \<Longrightarrow> depth + 1 - 10 \<le> v \<and> v \<le> 10 - (depth + 1)"
      proof -
        fix v assume "v \<in> set ?vs"
        then obtain i j where ij: "(i, j) \<in> set (legal g)"
          "v = minimax_value (Game_makeMove g i j CHR ''O'') (depth + 1) False" by auto
        from "1.IH"(1)[of "(i, j)" i j] \<open>length g = 9 \<and> _\<close> True ij(1) "1.prems"(1) dec[OF ij(1), of "CHR ''O''"]
        show "depth + 1 - 10 \<le> v \<and> v \<le> 10 - (depth + 1)" unfolding ij(2) by simp
      qed
      have eq: "minimax_value g depth isMax =
          foldl (\<lambda>best val. if val > best then val else best) (- INT_MAX) ?vs"
        using \<open>length g = 9 \<and> _\<close> True by (subst minimax_value.simps) simp
      from ne obtain v0 where v0: "v0 \<in> set ?vs" by (cases "legal g") auto
      have lo: "depth - 10 \<le> foldl (\<lambda>best val. if val > best then val else best) (- INT_MAX) ?vs"
        using run_max_ge_mem[OF v0, of "- INT_MAX"] ch[OF v0] by linarith
      have "foldl (\<lambda>best val. if val > best then val else best) (- INT_MAX) ?vs \<in> set (- INT_MAX # ?vs)"
        by (rule run_max_mem)
      then have "foldl (\<lambda>best val. if val > best then val else best) (- INT_MAX) ?vs = - INT_MAX
          \<or> foldl (\<lambda>best val. if val > best then val else best) (- INT_MAX) ?vs \<in> set ?vs"
        by simp
      then have hi: "foldl (\<lambda>best val. if val > best then val else best) (- INT_MAX) ?vs \<le> 10 - depth"
      proof
        assume "foldl (\<lambda>best val. if val > best then val else best) (- INT_MAX) ?vs = - INT_MAX"
        then show ?thesis using dle by (simp add: INT_MAX_def)
      next
        assume "foldl (\<lambda>best val. if val > best then val else best) (- INT_MAX) ?vs \<in> set ?vs"
        from ch[OF this] show ?thesis by linarith
      qed
      show ?thesis unfolding eq using lo hi by simp
    next
      case False
      let ?vs = "map (\<lambda>(i, j). minimax_value (Game_makeMove g i j CHR ''X'') (depth + 1) True) (legal g)"
      have ch: "\<And>v. v \<in> set ?vs \<Longrightarrow> depth + 1 - 10 \<le> v \<and> v \<le> 10 - (depth + 1)"
      proof -
        fix v assume "v \<in> set ?vs"
        then obtain i j where ij: "(i, j) \<in> set (legal g)"
          "v = minimax_value (Game_makeMove g i j CHR ''X'') (depth + 1) True" by auto
        from "1.IH"(2)[of "(i, j)" i j] \<open>length g = 9 \<and> _\<close> False ij(1) "1.prems"(1) dec[OF ij(1), of "CHR ''X''"]
        show "depth + 1 - 10 \<le> v \<and> v \<le> 10 - (depth + 1)" unfolding ij(2) by simp
      qed
      have eq: "minimax_value g depth isMax =
          foldl (\<lambda>best val. if val < best then val else best) INT_MAX ?vs"
        using \<open>length g = 9 \<and> _\<close> False by (subst minimax_value.simps) simp
      from ne obtain v0 where v0: "v0 \<in> set ?vs" by (cases "legal g") auto
      have hi: "foldl (\<lambda>best val. if val < best then val else best) INT_MAX ?vs \<le> 10 - depth"
        using run_min_le_mem[OF v0, of INT_MAX] ch[OF v0] by linarith
      have "foldl (\<lambda>best val. if val < best then val else best) INT_MAX ?vs \<in> set (INT_MAX # ?vs)"
        by (rule run_min_mem)
      then have "foldl (\<lambda>best val. if val < best then val else best) INT_MAX ?vs = INT_MAX
          \<or> foldl (\<lambda>best val. if val < best then val else best) INT_MAX ?vs \<in> set ?vs"
        by simp
      then have lo: "depth - 10 \<le> foldl (\<lambda>best val. if val < best then val else best) INT_MAX ?vs"
      proof
        assume "foldl (\<lambda>best val. if val < best then val else best) INT_MAX ?vs = INT_MAX"
        then show ?thesis using dle by (simp add: INT_MAX_def)
      next
        assume "foldl (\<lambda>best val. if val < best then val else best) INT_MAX ?vs \<in> set ?vs"
        from ch[OF this] show ?thesis by linarith
      qed
      show ?thesis unfolding eq using lo hi by simp
    qed
  qed
qed

lemma score_bounds:
  assumes "length g = 9" "(i, j) \<in> set cells" "cell g i j = CHR '' ''"
  shows "- 10 \<le> score g i j \<and> score g i j \<le> 10"
proof -
  have "Suc (empties (Game_makeMove g i j CHR ''O'')) = empties g"
    using empties_makeMove[OF assms, of "CHR ''O''"] by simp
  with empties_le_length[of g] assms(1)
  have "0 + int (empties (Game_makeMove g i j CHR ''O'')) \<le> 10" by simp
  from value_bounds[OF _ this, of False] show ?thesis by (simp add: score_def)
qed

subsection \<open>Bounds on a value without the full search\<close>

text \<open>
  \<open>cert True n c g d m\<close> checks that the value of board \<open>g\<close> is at most \<open>c\<close>, and
  \<open>cert False n c g d m\<close> that it is at least \<open>c\<close>, stopping at the first move that
  settles a node. \<open>cw9\<close> is \<^verbatim>\<open>Game_checkWin\<close> on a board written out as nine cells.
  Both are proof devices: \<open>cert_sound\<close> ties them to \<open>minimax_value\<close>.
\<close>

fun cw9 :: "Game \<Rightarrow> int" where
  "cw9 [a, b, c, d, e, f, g, h, i] =
     (if a \<noteq> CHR '' '' \<and> a = b \<and> b = c then (if a = CHR ''X'' then 1 else - 1)
      else if d \<noteq> CHR '' '' \<and> d = e \<and> e = f then (if d = CHR ''X'' then 1 else - 1)
      else if g \<noteq> CHR '' '' \<and> g = h \<and> h = i then (if g = CHR ''X'' then 1 else - 1)
      else if a \<noteq> CHR '' '' \<and> a = d \<and> d = g then (if a = CHR ''X'' then 1 else - 1)
      else if b \<noteq> CHR '' '' \<and> b = e \<and> e = h then (if b = CHR ''X'' then 1 else - 1)
      else if c \<noteq> CHR '' '' \<and> c = f \<and> f = i then (if c = CHR ''X'' then 1 else - 1)
      else if a \<noteq> CHR '' '' \<and> a = e \<and> e = i then (if a = CHR ''X'' then 1 else - 1)
      else if c \<noteq> CHR '' '' \<and> c = e \<and> e = g then (if c = CHR ''X'' then 1 else - 1)
      else if a \<noteq> CHR '' '' \<and> b \<noteq> CHR '' '' \<and> c \<noteq> CHR '' '' \<and> d \<noteq> CHR '' '' \<and> e \<noteq> CHR '' ''
              \<and> f \<noteq> CHR '' '' \<and> g \<noteq> CHR '' '' \<and> h \<noteq> CHR '' '' \<and> i \<noteq> CHR '' '' then 0
      else 2)"
| "cw9 _ = 2"

definition within :: "bool \<Rightarrow> int \<Rightarrow> int \<Rightarrow> bool" where
  "within le v c = (if le then v \<le> c else c \<le> v)"

function (sequential) cert :: "bool \<Rightarrow> nat \<Rightarrow> int \<Rightarrow> Game \<Rightarrow> int \<Rightarrow> bool \<Rightarrow> bool"
  and cert_node :: "bool \<Rightarrow> nat \<Rightarrow> int \<Rightarrow> Game \<Rightarrow> int \<Rightarrow> bool \<Rightarrow> int \<Rightarrow> bool"
  and cert_loop :: "bool \<Rightarrow> nat \<Rightarrow> int \<Rightarrow> int \<Rightarrow> bool \<Rightarrow> char list \<Rightarrow> char list \<Rightarrow> bool"
where
  "cert le 0 c g d m = False"
| "cert le (Suc n) c g d m = cert_node le n c g d m (cw9 g)"
| "cert_node le n c g d m s =
     (if s = - 1 then within le (10 - d) c
      else if s = 1 then within le (- 10 + d) c
      else if s = 0 then within le 0 c
      else if le = m then (if within le (if m then - 2147483647 else 2147483647) c
                           then cert_loop le n c d m [] g else False)
      else cert_loop le n c d m [] g)"
| "cert_loop le n c d m bf [] = (le = m)"
| "cert_loop le n c d m bf (x # af) =
     (if x = CHR '' '' then
        (if cert le n c (rev bf @ (if m then CHR ''O'' else CHR ''X'') # af) (d + 1) (\<not> m)
         then (if le = m then cert_loop le n c d m (x # bf) af else True)
         else (if le = m then False else cert_loop le n c d m (x # bf) af))
      else cert_loop le n c d m (x # bf) af)"
  by pat_completeness auto
termination
  by (relation "measures
        [\<lambda>x. case x of Inl (_, n, _) \<Rightarrow> 3 * n | Inr (Inl (_, n, _)) \<Rightarrow> 3 * n + 2
                   | Inr (Inr (_, n, _)) \<Rightarrow> 3 * n + 1,
         \<lambda>x. case x of Inl _ \<Rightarrow> 0 | Inr (Inl _) \<Rightarrow> 0
                   | Inr (Inr (_, _, _, _, _, _, af)) \<Rightarrow> length af]") auto

definition fuel9 :: nat where "fuel9 = Suc (Suc (Suc (Suc (Suc (Suc (Suc (Suc (Suc 0))))))))"

definition mark :: "bool \<Rightarrow> char" where
  "mark m = (if m then CHR ''O'' else CHR ''X'')"

lemma nine_cells:
  "length (g :: 'a list) = 9 \<Longrightarrow> \<exists>a b c d e f h i j. g = [a, b, c, d, e, f, h, i, j]"
  by (auto simp: length_Suc_conv numeral_eq_Suc)

lemma case_if_Some:
  "(case (if c then Some x else y) of None \<Rightarrow> z | Some r \<Rightarrow> f r) =
   (if c then f x else (case y of None \<Rightarrow> z | Some r \<Rightarrow> f r))"
  by simp

lemma cw9_checkWin: "length g = 9 \<Longrightarrow> cw9 g = Game_checkWin g"
proof -
  assume "length g = 9"
  then obtain a b c d e f h i j where g: "g = [a, b, c, d, e, f, h, i, j]"
    using nine_cells by blast
  have c: "cell g 0 0 = a" "cell g 0 1 = b" "cell g 0 2 = c"
          "cell g 1 0 = d" "cell g 1 1 = e" "cell g 1 2 = f"
          "cell g 2 0 = h" "cell g 2 1 = i" "cell g 2 2 = j"
    by (simp_all add: g cell_def)
  have ml: "Game_isMovesLeft g \<longleftrightarrow>
      a = CHR '' '' \<or> b = CHR '' '' \<or> c = CHR '' '' \<or> d = CHR '' '' \<or> e = CHR '' ''
        \<or> f = CHR '' '' \<or> h = CHR '' '' \<or> i = CHR '' '' \<or> j = CHR '' ''"
    by (simp add: Game_isMovesLeft_def cells_def c)
  have "Game_checkWin g = cw9 [a, b, c, d, e, f, h, i, j]"
    by (simp add: Game_checkWin_def c ml case_if_Some cong del: if_weak_cong split del: if_split)
  then show ?thesis by (simp only: g)
qed

lemma check_rows_range: "check_rows g rs = Some r \<Longrightarrow> r = 1 \<or> r = - 1"
  by (induction rs) (auto split: if_splits)

lemma check_cols_range: "check_cols g rs = Some r \<Longrightarrow> r = 1 \<or> r = - 1"
  by (induction rs) (auto split: if_splits)

lemma ite_chain:
  "(if A then (if P then 1 else - 1) else if B then (if Q then 1 else - 1)
    else if \<not> M then 0 else (2::int)) = r \<Longrightarrow> r \<noteq> - 1 \<Longrightarrow> r \<noteq> 1 \<Longrightarrow> (r = 0 \<longleftrightarrow> \<not> M)"
  by (auto split: if_splits)

lemma checkWin_draw:
  assumes "Game_checkWin g \<noteq> - 1" "Game_checkWin g \<noteq> 1"
  shows "Game_checkWin g = 0 \<longleftrightarrow> \<not> Game_isMovesLeft g"
proof (cases "check_rows g [0, 1, 2]")
  case (Some r)
  then have "Game_checkWin g = r" by (simp add: Game_checkWin_def)
  with check_rows_range[OF Some] assms show ?thesis by auto
next
  case None
  note rows = this
  show ?thesis
  proof (cases "check_cols g [0, 1, 2]")
    case (Some r)
    then have "Game_checkWin g = r" using rows by (simp add: Game_checkWin_def)
    with check_cols_range[OF Some] assms show ?thesis by auto
  next
    case None
    have eq: "Game_checkWin g =
       (if cell g 0 0 \<noteq> CHR '' '' \<and> cell g 0 0 = cell g 1 1 \<and> cell g 1 1 = cell g 2 2
        then (if cell g 0 0 = CHR ''X'' then 1 else - 1)
        else if cell g 0 2 \<noteq> CHR '' '' \<and> cell g 0 2 = cell g 1 1 \<and> cell g 1 1 = cell g 2 0
        then (if cell g 0 2 = CHR ''X'' then 1 else - 1)
        else if \<not> Game_isMovesLeft g then 0
        else 2)"
      using rows None by (simp add: Game_checkWin_def)
    show ?thesis by (rule ite_chain[OF eq[symmetric] assms])
  qed
qed

lemma evaluate_checkWin:
  "(AI_evaluate g = 10 \<longleftrightarrow> Game_checkWin g = - 1) \<and> (AI_evaluate g = - 10 \<longleftrightarrow> Game_checkWin g = 1)"
  by (simp add: AI_evaluate_def Let_def)

definition pos :: "nat \<Rightarrow> int \<times> int" where
  "pos k = (int (k div 3), int (k mod 3))"

lemma cells_pos: "cells = map pos [0, 1, 2, 3, 4, 5, 6, 7, 8]"
  by (simp add: cells_def pos_def)

lemma pos_index: "nat (3 * fst (pos k) + snd (pos k)) = k"
  by (simp add: pos_def zdiv_int zmod_int)

lemma pos_range: "0 \<le> 3 * fst (pos k) + snd (pos k)"
  by (simp add: pos_def)

lemma cell_pos: "cell g (fst (pos k)) (snd (pos k)) = g ! k"
  by (simp add: cell_def pos_index)

lemma makeMove_pos: "k < 9 \<Longrightarrow> Game_makeMove g (fst (pos k)) (snd (pos k)) x = g[k := x]"
proof -
  assume "k < 9"
  then have "3 * fst (pos k) + snd (pos k) < 9" by (simp add: pos_def zdiv_int zmod_int)
  then show ?thesis using pos_range[of k] by (simp add: Game_makeMove_def pos_index)
qed

definition free_cells :: "Game \<Rightarrow> nat list" where
  "free_cells g = filter (\<lambda>k. g ! k = CHR '' '') [0, 1, 2, 3, 4, 5, 6, 7, 8]"

lemma upt9: "[0, 1, 2, 3, 4, 5, 6, 7, 8] = [0..<9]"
  by code_simp

lemma free_cells_set: "k \<in> set (free_cells g) \<longleftrightarrow> k < 9 \<and> g ! k = CHR '' ''"
  unfolding free_cells_def upt9 by simp

lemma legal_pos: "legal g = map pos (free_cells g)"
proof -
  have "filter (\<lambda>(i, j). cell g i j = CHR '' '') (map pos [0, 1, 2, 3, 4, 5, 6, 7, 8])
      = map pos (filter ((\<lambda>(i, j). cell g i j = CHR '' '') \<circ> pos) [0, 1, 2, 3, 4, 5, 6, 7, 8])"
    by (rule filter_map)
  moreover have "(\<lambda>(i, j). cell g i j = CHR '' '') \<circ> pos = (\<lambda>k. g ! k = CHR '' '')"
    by (rule ext) (simp add: case_prod_beta cell_pos)
  ultimately show ?thesis by (simp only: legal_def cells_pos free_cells_def)
qed

lemma legal_flat:
  "map (\<lambda>(i, j). f (Game_makeMove g i j x)) (legal g) = map (\<lambda>k. f (g[k := x])) (free_cells g)"
proof -
  have "map (\<lambda>(i, j). f (Game_makeMove g i j x)) (map pos (free_cells g))
      = map (\<lambda>k. f (Game_makeMove g (fst (pos k)) (snd (pos k)) x)) (free_cells g)"
    by (simp add: case_prod_beta comp_def)
  also have "\<dots> = map (\<lambda>k. f (g[k := x])) (free_cells g)"
    by (rule map_cong) (simp_all add: free_cells_set makeMove_pos)
  finally show ?thesis by (simp only: legal_pos)
qed


lemma cert_loop_sound:
  assumes ih: "\<And>g d m. cert le n c g d m \<Longrightarrow> length g = 9 \<Longrightarrow> within le (minimax_value g d m) c"
  shows "cert_loop le n c d m bf af \<Longrightarrow> length bf + length af = 9 \<Longrightarrow>
    (if le = m
     then (\<forall>k. length bf \<le> k \<and> k < 9 \<and> (rev bf @ af) ! k = CHR '' '' \<longrightarrow>
             within le (minimax_value ((rev bf @ af)[k := mark m]) (d + 1) (\<not> m)) c)
     else (\<exists>k. length bf \<le> k \<and> k < 9 \<and> (rev bf @ af) ! k = CHR '' '' \<and>
             within le (minimax_value ((rev bf @ af)[k := mark m]) (d + 1) (\<not> m)) c))"
proof (induction af arbitrary: bf)
  case Nil
  then show ?case by auto
next
  case (Cons x af)
  let ?g = "rev bf @ x # af"
  let ?child = "rev bf @ mark m # af"
  have g': "rev (x # bf) @ af = ?g" by simp
  have at: "?g ! length bf = x"
    using nth_append_length[of "rev bf" x af] by simp
  have upd: "?g[length bf := mark m] = ?child"
    using list_update_length[of "rev bf" x af "mark m"] by simp
  have len': "length (x # bf) + length af = 9" using Cons.prems(2) by simp
  have lenc: "length ?child = 9" using Cons.prems(2) by simp
  have lt: "length bf < 9" using Cons.prems(2) by simp
  note rest = Cons.IH[of "x # bf", unfolded g', OF _ len']
  show ?case
  proof (cases "x = CHR '' ''")
    case False
    then have "cert_loop le n c d m (x # bf) af" using Cons.prems(1) by simp
    from rest[OF this] show ?thesis
    proof (cases "le = m")
      case True
      assume a: "if le = m
        then \<forall>k. length (x # bf) \<le> k \<and> k < 9 \<and> ?g ! k = CHR '' '' \<longrightarrow>
               within le (minimax_value (?g[k := mark m]) (d + 1) (\<not> m)) c
        else \<exists>k. length (x # bf) \<le> k \<and> k < 9 \<and> ?g ! k = CHR '' '' \<and>
               within le (minimax_value (?g[k := mark m]) (d + 1) (\<not> m)) c"
      have "\<forall>k. length bf \<le> k \<and> k < 9 \<and> ?g ! k = CHR '' '' \<longrightarrow>
               within le (minimax_value (?g[k := mark m]) (d + 1) (\<not> m)) c"
      proof (intro allI impI)
        fix k assume k: "length bf \<le> k \<and> k < 9 \<and> ?g ! k = CHR '' ''"
        with at False have "k \<noteq> length bf" by auto
        with k have "length (x # bf) \<le> k" by simp
        with a True k show "within le (minimax_value (?g[k := mark m]) (d + 1) (\<not> m)) c" by simp
      qed
      with True show ?thesis by simp
    next
      case False
      assume a: "if le = m
        then \<forall>k. length (x # bf) \<le> k \<and> k < 9 \<and> ?g ! k = CHR '' '' \<longrightarrow>
               within le (minimax_value (?g[k := mark m]) (d + 1) (\<not> m)) c
        else \<exists>k. length (x # bf) \<le> k \<and> k < 9 \<and> ?g ! k = CHR '' '' \<and>
               within le (minimax_value (?g[k := mark m]) (d + 1) (\<not> m)) c"
      with False obtain k where "length (x # bf) \<le> k" "k < 9" "?g ! k = CHR '' ''"
          "within le (minimax_value (?g[k := mark m]) (d + 1) (\<not> m)) c" by auto
      then have "length bf \<le> k \<and> k < 9 \<and> ?g ! k = CHR '' '' \<and>
          within le (minimax_value (?g[k := mark m]) (d + 1) (\<not> m)) c" by simp
      with False show ?thesis by auto
    qed
  next
    case True
    note sp = this
    show ?thesis
    proof (cases "cert le n c ?child (d + 1) (\<not> m)")
      case True
      from ih[OF True lenc] have w: "within le (minimax_value ?child (d + 1) (\<not> m)) c" .
      show ?thesis
      proof (cases "le = m")
        case False
        have "length bf \<le> length bf \<and> length bf < 9 \<and> ?g ! length bf = CHR '' '' \<and>
            within le (minimax_value (?g[length bf := mark m]) (d + 1) (\<not> m)) c"
          using lt at sp w upd by simp
        with False show ?thesis by auto
      next
        case lm: True
        have "cert_loop le n c d m (x # bf) af"
          using Cons.prems(1) sp True lm by (simp add: mark_def)
        from rest[OF this] lm
        have a: "\<forall>k. length (x # bf) \<le> k \<and> k < 9 \<and> ?g ! k = CHR '' '' \<longrightarrow>
               within le (minimax_value (?g[k := mark m]) (d + 1) (\<not> m)) c" by simp
        have "\<forall>k. length bf \<le> k \<and> k < 9 \<and> ?g ! k = CHR '' '' \<longrightarrow>
               within le (minimax_value (?g[k := mark m]) (d + 1) (\<not> m)) c"
        proof (intro allI impI)
          fix k assume k: "length bf \<le> k \<and> k < 9 \<and> ?g ! k = CHR '' ''"
          show "within le (minimax_value (?g[k := mark m]) (d + 1) (\<not> m)) c"
          proof (cases "k = length bf")
            case True
            then show ?thesis using w upd by simp
          next
            case False
            with k have "length (x # bf) \<le> k" by simp
            with a k show ?thesis by simp
          qed
        qed
        with lm show ?thesis by simp
      qed
    next
      case False
      show ?thesis
      proof (cases "le = m")
        case True
        with Cons.prems(1) sp False have False by (simp add: mark_def)
        then show ?thesis ..
      next
        case lm: False
        have "cert_loop le n c d m (x # bf) af"
          using Cons.prems(1) sp False lm by (simp add: mark_def)
        from rest[OF this] lm obtain k where "length (x # bf) \<le> k" "k < 9" "?g ! k = CHR '' ''"
          "within le (minimax_value (?g[k := mark m]) (d + 1) (\<not> m)) c" by auto
        then have "length bf \<le> k \<and> k < 9 \<and> ?g ! k = CHR '' '' \<and>
          within le (minimax_value (?g[k := mark m]) (d + 1) (\<not> m)) c" by simp
        with lm show ?thesis by auto
      qed
    qed
  qed
qed


lemma mem_bound_le:
  "(i :: int) \<le> c \<Longrightarrow> (\<And>v. v \<in> set vs \<Longrightarrow> v \<le> c) \<Longrightarrow> r \<in> set (i # vs) \<Longrightarrow> r \<le> c"
  by auto

lemma mem_bound_ge:
  "c \<le> (i :: int) \<Longrightarrow> (\<And>v. v \<in> set vs \<Longrightarrow> c \<le> v) \<Longrightarrow> r \<in> set (i # vs) \<Longrightarrow> c \<le> r"
  by auto

lemma cert_sound:
  "cert le n c g d m \<Longrightarrow> length g = 9 \<Longrightarrow> within le (minimax_value g d m) c"
proof (induction n arbitrary: g d m)
  case 0
  then show ?case by simp
next
  case (Suc n)
  note len = Suc.prems(2)
  have node: "cert_node le n c g d m (Game_checkWin g)"
    using Suc.prems(1) cw9_checkWin[OF len] by simp
  consider (o) "Game_checkWin g = - 1" | (x) "Game_checkWin g = 1" | (dr) "Game_checkWin g = 0"
    | (go) "Game_checkWin g \<noteq> - 1" "Game_checkWin g \<noteq> 1" "Game_checkWin g \<noteq> 0"
    by blast
  then show ?case
  proof cases
    case o
    then have "minimax_value g d m = 10 - d"
      using len evaluate_checkWin[of g] by (subst minimax_value.simps) simp
    with node o show ?thesis by simp
  next
    case x
    then have "minimax_value g d m = - 10 + d"
      using len evaluate_checkWin[of g] by (subst minimax_value.simps) simp
    with node x show ?thesis by simp
  next
    case dr
    then have "\<not> Game_isMovesLeft g" using checkWin_draw[of g] by simp
    with dr have "minimax_value g d m = 0"
      using len evaluate_checkWin[of g] by (subst minimax_value.simps) simp
    with node dr show ?thesis by simp
  next
    case go
    then have ml: "Game_isMovesLeft g" using checkWin_draw[of g] by simp
    have ne: "AI_evaluate g \<noteq> 10" "AI_evaluate g \<noteq> - 10"
      using go evaluate_checkWin[of g] by simp_all
    have loop: "cert_loop le n c d m [] g"
      using node go by (simp split: if_splits)
    have guard: "le = m \<Longrightarrow> within le (if m then - 2147483647 else 2147483647) c"
      using node go by (simp split: if_splits)
    let ?ch = "\<lambda>k. minimax_value (g[k := mark m]) (d + 1) (\<not> m)"
    from cert_loop_sound[of le n c d m "[]" g, OF Suc.IH loop] len
    have lp: "if le = m
       then (\<forall>k. k < 9 \<and> g ! k = CHR '' '' \<longrightarrow> within le (?ch k) c)
       else (\<exists>k. k < 9 \<and> g ! k = CHR '' '' \<and> within le (?ch k) c)"
      by (cases "le = m") simp_all
    show ?thesis
    proof (cases m)
      case True
      let ?vs = "map (\<lambda>k. minimax_value (g[k := CHR ''O'']) (d + 1) False) (free_cells g)"
      have eq: "minimax_value g d m = foldl (\<lambda>best val. if val > best then val else best) (- INT_MAX) ?vs"
        using len ne ml True
        by (subst minimax_value.simps)
           (simp add: legal_flat[of "\<lambda>b. minimax_value b (d + 1) False" g "CHR ''O''"])
      show ?thesis
      proof (cases le)
        case True
        with \<open>m\<close> lp have all: "\<forall>k. k < 9 \<and> g ! k = CHR '' '' \<longrightarrow> ?ch k \<le> c"
          by (simp add: within_def)
        from guard True \<open>m\<close> have "- INT_MAX \<le> c" by (simp add: within_def INT_MAX_def)
        moreover have "\<And>v. v \<in> set ?vs \<Longrightarrow> v \<le> c"
          using all \<open>m\<close> by (auto simp: free_cells_set mark_def)
        moreover have "foldl (\<lambda>best val. if val > best then val else best) (- INT_MAX) ?vs
            \<in> set (- INT_MAX # ?vs)" by (rule run_max_mem)
        ultimately have "foldl (\<lambda>best val. if val > best then val else best) (- INT_MAX) ?vs \<le> c"
          by (rule mem_bound_le)
        with True eq show ?thesis by (simp add: within_def)
      next
        case False
        with \<open>m\<close> lp obtain k where k: "k < 9" "g ! k = CHR '' ''" "c \<le> ?ch k"
          by (auto simp: within_def)
        then have "?ch k \<in> set ?vs" using \<open>m\<close> by (auto simp: free_cells_set mark_def)
        from run_max_ge_mem[OF this, of "- INT_MAX"] k(3) False eq show ?thesis
          by (simp add: within_def)
      qed
    next
      case False
      let ?vs = "map (\<lambda>k. minimax_value (g[k := CHR ''X'']) (d + 1) True) (free_cells g)"
      have eq: "minimax_value g d m = foldl (\<lambda>best val. if val < best then val else best) INT_MAX ?vs"
        using len ne ml False
        by (subst minimax_value.simps)
           (simp add: legal_flat[of "\<lambda>b. minimax_value b (d + 1) True" g "CHR ''X''"])
      show ?thesis
      proof (cases le)
        case False
        with \<open>\<not> m\<close> lp have all: "\<forall>k. k < 9 \<and> g ! k = CHR '' '' \<longrightarrow> c \<le> ?ch k"
          by (simp add: within_def)
        from guard False \<open>\<not> m\<close> have "c \<le> INT_MAX" by (simp add: within_def INT_MAX_def)
        moreover have "\<And>v. v \<in> set ?vs \<Longrightarrow> c \<le> v"
          using all \<open>\<not> m\<close> by (auto simp: free_cells_set mark_def)
        moreover have "foldl (\<lambda>best val. if val < best then val else best) INT_MAX ?vs
            \<in> set (INT_MAX # ?vs)" by (rule run_min_mem)
        ultimately have "c \<le> foldl (\<lambda>best val. if val < best then val else best) INT_MAX ?vs"
          by (rule mem_bound_ge)
        with False eq show ?thesis by (simp add: within_def)
      next
        case True
        with \<open>\<not> m\<close> lp obtain k where k: "k < 9" "g ! k = CHR '' ''" "?ch k \<le> c"
          by (auto simp: within_def)
        then have "?ch k \<in> set ?vs" using \<open>\<not> m\<close> by (auto simp: free_cells_set mark_def)
        from run_min_le_mem[OF this, of INT_MAX] k(3) True eq show ?thesis
          by (simp add: within_def)
      qed
    qed
  qed
qed

subsection \<open>The best score and the first move that reaches it\<close>

definition best_score :: "Game \<Rightarrow> int" where
  "best_score g = Max (set (map cand_score (candidates g)))"

definition first_best :: "Game \<Rightarrow> Candidate option" where
  "first_best g = find (\<lambda>c. cand_score c = best_score g) (candidates g)"

lemma track_best_fst:
  "fst (foldl track_best b cs) =
   foldl (\<lambda>best val. if val > best then val else best) (fst b) (map cand_score cs)"
  by (induction cs arbitrary: b) (simp_all add: track_best_def)

lemma track_best_mono: "fst b \<le> fst (foldl track_best b cs)"
  unfolding track_best_fst by (rule run_max_ge_init)

lemma track_best_snd:
  "snd (foldl track_best b cs) =
     (if fst (foldl track_best b cs) > fst b
      then move_of (the (find (\<lambda>c. cand_score c = fst (foldl track_best b cs)) cs))
      else snd b)"
proof (induction cs arbitrary: b)
  case Nil
  show ?case by simp
next
  case (Cons c cs)
  let ?b' = "track_best b c"
  let ?R = "foldl track_best ?b' cs"
  have R: "foldl track_best b (c # cs) = ?R" by simp
  note ih = Cons.IH[of ?b']
  have mono: "fst ?b' \<le> fst ?R" by (rule track_best_mono)
  show ?case
  proof (cases "cand_score c > fst b")
    case True
    then have b': "?b' = (cand_score c, move_of c)" by (simp add: track_best_def)
    show ?thesis
    proof (cases "fst ?R > cand_score c")
      case gt: True
      then have "find (\<lambda>x. cand_score x = fst ?R) (c # cs) = find (\<lambda>x. cand_score x = fst ?R) cs"
        by simp
      with ih gt True b' show ?thesis unfolding R by simp
    next
      case False
      with mono b' have eq: "fst ?R = cand_score c" by simp
      then have "find (\<lambda>x. cand_score x = fst ?R) (c # cs) = Some c" by simp
      with ih eq True b' show ?thesis unfolding R by simp
    qed
  next
    case False
    then have b': "?b' = b" by (simp add: track_best_def)
    show ?thesis
    proof (cases "fst ?R > fst b")
      case gt: True
      with False have "cand_score c \<noteq> fst ?R" by simp
      then have "find (\<lambda>x. cand_score x = fst ?R) (c # cs) = find (\<lambda>x. cand_score x = fst ?R) cs"
        by simp
      with ih gt b' show ?thesis unfolding R by simp
    next
      case False
      with ih b' show ?thesis unfolding R by simp
    qed
  qed
qed

lemma candidates_nonempty: "Game_isMovesLeft g \<Longrightarrow> candidates g \<noteq> []"
  by (simp add: candidates_def isMovesLeft_legal)

lemma candidate_score_bounds:
  assumes "length g = 9" "c \<in> set (candidates g)"
  shows "- 10 \<le> cand_score c \<and> cand_score c \<le> 10"
proof -
  from assms(2) obtain i j where ij: "(i, j) \<in> set (legal g)"
      "c = \<lparr>cand_row = i, cand_col = j, cand_score = score g i j\<rparr>"
    by (auto simp: candidates_def)
  then have "(i, j) \<in> set cells" "cell g i j = CHR '' ''" by (auto simp: legal_def)
  from score_bounds[OF assms(1) this] ij(2) show ?thesis by simp
qed

lemma best_score_run:
  assumes "length g = 9" "Game_isMovesLeft g"
  shows "foldl (\<lambda>best val. if val > best then val else best) (- INT_MAX) (map cand_score (candidates g))
         = best_score g"
    and "- INT_MAX < best_score g"
proof -
  let ?vs = "map cand_score (candidates g)"
  from candidates_nonempty[OF assms(2)] have ne: "set ?vs \<noteq> {}" by simp
  have lo: "\<And>v. v \<in> set ?vs \<Longrightarrow> - INT_MAX < v"
  proof -
    fix v assume "v \<in> set ?vs"
    then obtain c where "c \<in> set (candidates g)" "v = cand_score c" by auto
    with candidate_score_bounds[OF assms(1), of c] show "- INT_MAX < v"
      by (simp add: INT_MAX_def)
  qed
  have "Max (set ?vs) \<in> set ?vs" using ne by (intro Max_in) simp_all
  from lo[OF this] show gt: "- INT_MAX < best_score g" by (simp add: best_score_def)
  have "Max (set (- INT_MAX # ?vs)) = max (- INT_MAX) (Max (set ?vs))"
    using ne by (simp add: Max_insert)
  also have "\<dots> = Max (set ?vs)" using gt by (simp add: best_score_def)
  finally show "foldl (\<lambda>best val. if val > best then val else best) (- INT_MAX) ?vs = best_score g"
    by (simp add: run_max_eq_Max best_score_def)
qed

lemma find_loop_best:
  assumes len: "length (game s) = 9" and ml: "Game_isMovesLeft (game s)"
  shows "\<exists>s' c. find_loop cells s (- INT_MAX) \<lparr>row = - 1, col = - 1\<rparr> [] =
             Some (s', best_score (game s), move_of c, candidates (game s))
          \<and> first_best (game s) = Some c
          \<and> game s' = game s
          \<and> g_nodesSearched s \<le> g_nodesSearched s'
          \<and> g_maxDepthReached s \<le> g_maxDepthReached s'"
proof -
  let ?b0 = "(- INT_MAX, \<lparr>row = - 1, col = - 1\<rparr>)"
  let ?R = "foldl track_best ?b0 (candidates (game s))"
  from find_loop_result[OF len subset_refl, of "- INT_MAX" "\<lparr>row = - 1, col = - 1\<rparr>" "[]"]
  obtain s' where s': "find_loop cells s (- INT_MAX) \<lparr>row = - 1, col = - 1\<rparr> [] =
        Some (s', fst ?R, snd ?R, candidates (game s))"
      "game s' = game s" "g_nodesSearched s \<le> g_nodesSearched s'"
      "g_maxDepthReached s \<le> g_maxDepthReached s'"
    by (auto simp: cands_of_cells)
  have f: "fst ?R = best_score (game s)"
    using best_score_run(1)[OF len ml] by (simp add: track_best_fst)
  have gt: "fst ?b0 < fst ?R" using best_score_run(2)[OF len ml] f by simp
  have "best_score (game s) \<in> set (map cand_score (candidates (game s)))"
    unfolding best_score_def using candidates_nonempty[OF ml] by (intro Max_in) simp_all
  then obtain c0 where "c0 \<in> set (candidates (game s))" "cand_score c0 = best_score (game s)"
    by auto
  then obtain c where c: "find (\<lambda>c. cand_score c = best_score (game s)) (candidates (game s)) = Some c"
    by (cases "find (\<lambda>c. cand_score c = best_score (game s)) (candidates (game s))")
       (auto simp: find_None_iff)
  have "snd ?R = move_of c"
    using track_best_snd[of ?b0 "candidates (game s)"] gt c unfolding f by simp
  with s' f c show ?thesis by (intro exI[of _ s'] exI[of _ c]) (simp add: first_best_def)
qed

subsection \<open>What the top-level entries return\<close>

lemma pool_loop_filter:
  "pool_loop cand t ks acc = acc @ filter (\<lambda>k. cand_score (cand ! k) \<ge> t) ks"
  by (induction ks arbitrary: acc) simp_all

lemma best_index:
  assumes "length g = 9" "Game_isMovesLeft g"
  shows "\<exists>k < length (candidates g). cand_score (candidates g ! k) = best_score g"
proof -
  have "best_score g \<in> set (map cand_score (candidates g))"
    unfolding best_score_def using candidates_nonempty[OF assms(2)] by (intro Max_in) simp_all
  then obtain c where "c \<in> set (candidates g)" "cand_score c = best_score g" by auto
  then show ?thesis by (auto simp: in_set_conv_nth)
qed

lemma best_score_bounds:
  assumes "length g = 9" "Game_isMovesLeft g"
  shows "- 10 \<le> best_score g \<and> best_score g \<le> 10"
proof -
  from best_index[OF assms] obtain k where
    "k < length (candidates g)" "cand_score (candidates g ! k) = best_score g" by blast
  with candidate_score_bounds[OF assms(1), of "candidates g ! k"] show ?thesis by simp
qed

lemma impl_unfold:
  assumes len: "length (game s) = 9" and ml: "Game_isMovesLeft (game s)"
  shows "\<exists>s' c. first_best (game s) = Some c \<and> game s' = game s \<and>
     AI_findBestMove_impl ai rnd s =
       (let cand = candidates (game s); n = length cand
        in if difficulty ai = 2 then Some (move_of c, s')
           else if difficulty ai = 1 then
             (let threshold = (if best_score (game s) - 2 < - 10 then - 10 else best_score (game s) - 2);
                  pool = filter (\<lambda>k. cand_score (cand ! k) \<ge> threshold) [0..<n];
                  pick = pool ! (rnd mod length pool)
              in if length pool > 0 then Some (move_of (cand ! pick), s') else Some (move_of c, s'))
           else Some (move_of (cand ! ([0..<n] ! (rnd mod length [0..<n]))), s'))"
proof -
  let ?s0 = "s\<lparr>g_nodesSearched := 0, g_maxDepthReached := 0\<rparr>"
  have "length (game ?s0) = 9" "Game_isMovesLeft (game ?s0)" using len ml by simp_all
  from find_loop_best[OF this] obtain s' c where r:
    "find_loop cells ?s0 (- INT_MAX) \<lparr>row = - 1, col = - 1\<rparr> [] =
       Some (s', best_score (game s), move_of c, candidates (game s))"
    "first_best (game s) = Some c" "game s' = game s"
    by auto
  have ne: "length (candidates (game s)) \<noteq> 0" using candidates_nonempty[OF ml] by simp
  show ?thesis
    apply (intro exI[of _ s'] exI[of _ c] conjI r(2,3))
    unfolding AI_findBestMove_impl_def r(1)
    using ne by (simp add: Let_def pool_loop_filter move_of_def del: upt_Suc)
qed


definition threshold_of :: "Game \<Rightarrow> int" where
  "threshold_of g = max (best_score g - 2) (- 10)"

definition bounded_pool :: "Game \<Rightarrow> nat list" where
  "bounded_pool g =
     filter (\<lambda>k. cand_score (candidates g ! k) \<ge> threshold_of g) [0..<length (candidates g)]"

definition classify :: "int \<Rightarrow> int" where
  "classify best = (if best > 0 then - 1 else if best < 0 then 1 else 0)"

lemma predict_unfold:
  assumes len: "length (game s) = 9" and ml: "Game_isMovesLeft (game s)"
  shows "\<exists>s'. AI_getPrediction ai s = Some (classify (best_score (game s)), s')
            \<and> game s' = game s
            \<and> g_nodesSearched s + int (length (candidates (game s))) \<le> g_nodesSearched s'
            \<and> g_maxDepthReached s \<le> g_maxDepthReached s'"
proof -
  from predict_loop_result[OF len subset_refl, of "- INT_MAX"]
  obtain s' where s': "predict_loop cells s (- INT_MAX) =
      Some (s', foldl (\<lambda>best val. if val > best then val else best) (- INT_MAX)
                  (map cand_score (candidates (game s))))"
    "game s' = game s"
    "g_nodesSearched s + int (length (candidates (game s))) \<le> g_nodesSearched s'"
    "g_maxDepthReached s \<le> g_maxDepthReached s'"
    by (auto simp: cands_of_cells)
  show ?thesis
    using s'(2,3,4) unfolding AI_getPrediction_def s'(1) best_score_run(1)[OF len ml]
    by (intro exI[of _ s']) (simp add: classify_def)
qed

lemma impl_hard:
  assumes "length (game s) = 9" and "Game_isMovesLeft (game s)" and d: "difficulty ai = 2"
  shows "\<exists>s' c. first_best (game s) = Some c \<and> game s' = game s \<and>
     AI_findBestMove_impl ai rnd s = Some (move_of c, s')"
  using impl_unfold[OF assms(1,2), of ai rnd] by (simp add: Let_def d)

lemma impl_medium:
  assumes "length (game s) = 9" and "Game_isMovesLeft (game s)" and d: "difficulty ai = 1"
  shows "\<exists>s' c. first_best (game s) = Some c \<and> game s' = game s \<and>
     AI_findBestMove_impl ai rnd s =
       (if bounded_pool (game s) \<noteq> []
        then Some (move_of (candidates (game s) !
                     (bounded_pool (game s) ! (rnd mod length (bounded_pool (game s))))), s')
        else Some (move_of c, s'))"
proof -
  have th: "(if best_score (game s) - 2 < - 10 then - 10 else best_score (game s) - 2)
      = threshold_of (game s)" by (simp add: threshold_of_def)
  show ?thesis
    using impl_unfold[OF assms(1,2), of ai rnd] unfolding th bounded_pool_def
    by (simp add: Let_def d del: upt_Suc split del: if_split)
qed

subsection \<open>A late position, evaluated\<close>

text \<open>The board X X O / O O X / X . . with O to move: both remaining moves score 0.\<close>

lemma late_first_best:
  "map_option (\<lambda>c. (cand_row c, cand_col c, cand_score c)) (first_best ''XXOOOXX  '') = Some (2, 1, 0)"
  by code_simp

lemma late_pool: "bounded_pool ''XXOOOXX  '' = [0, 1]"
  by code_simp

lemma late_cands:
  "map (\<lambda>c. (cand_row c, cand_col c, cand_score c)) (candidates ''XXOOOXX  '') = [(2, 1, 0), (2, 2, 0)]"
  by code_simp

lemma late_second: "(\<lambda>c. (cand_row c, cand_col c)) (candidates ''XXOOOXX  '' ! 1) = (2, 2)"
  by code_simp

subsection \<open>Lines and the terminal classification\<close>

text \<open>
  \<open>lines\<close> are the eight lines in the order \<^verbatim>\<open>Game_checkWin\<close> scans them.
  \<open>terminalResult\<close> is the classification as the specification words it
  (\<open>Win m\<close> for the mark \<open>m\<close> on the first complete line); \<open>result_of_code\<close> reads the
  integer codes of \<^verbatim>\<open>Game_checkWin\<close>. \<open>marks_ok\<close> says a board has nine cells, each a
  space, an X or an O.
\<close>

datatype TerminalResult = Win char | Draw | Ongoing

definition result_of_code :: "int \<Rightarrow> TerminalResult" where
  "result_of_code r =
     (if r = 1 then Win CHR ''X'' else if r = - 1 then Win CHR ''O''
      else if r = 0 then Draw else Ongoing)"

type_synonym line = "(int \<times> int) \<times> (int \<times> int) \<times> (int \<times> int)"

definition lines :: "line list" where
  "lines =
     [((0, 0), (0, 1), (0, 2)), ((1, 0), (1, 1), (1, 2)), ((2, 0), (2, 1), (2, 2)),
      ((0, 0), (1, 0), (2, 0)), ((0, 1), (1, 1), (2, 1)), ((0, 2), (1, 2), (2, 2)),
      ((0, 0), (1, 1), (2, 2)), ((0, 2), (1, 1), (2, 0))]"

fun complete :: "Game \<Rightarrow> line \<Rightarrow> bool" where
  "complete g ((a, b), (c, d), (e, f)) =
     (cell g a b \<noteq> CHR '' '' \<and> cell g a b = cell g c d \<and> cell g c d = cell g e f)"

fun line_of :: "Game \<Rightarrow> char \<Rightarrow> line \<Rightarrow> bool" where
  "line_of g m ((a, b), (c, d), (e, f)) = (cell g a b = m \<and> cell g c d = m \<and> cell g e f = m)"

definition has_line :: "Game \<Rightarrow> char \<Rightarrow> bool" where
  "has_line g m = list_ex (line_of g m) lines"

definition terminalResult :: "Game \<Rightarrow> TerminalResult" where
  "terminalResult g =
     (case find (complete g) lines of
        Some ((i, j), _) \<Rightarrow> Win (cell g i j)
      | None \<Rightarrow> if list_ex (\<lambda>x. x = CHR '' '') g then Ongoing else Draw)"

definition marks_ok :: "Game \<Rightarrow> bool" where
  "marks_ok g = (length g = 9 \<and> list_all (\<lambda>x. x = CHR '' '' \<or> x = CHR ''X'' \<or> x = CHR ''O'') g)"

definition other :: "char \<Rightarrow> char" where
  "other m = (if m = CHR ''X'' then CHR ''O'' else CHR ''X'')"

lemma checkWin_find:
  "Game_checkWin g =
     (case find (complete g) lines of
        Some ((i, j), _) \<Rightarrow> (if cell g i j = CHR ''X'' then 1 else - 1)
      | None \<Rightarrow> if \<not> Game_isMovesLeft g then 0 else 2)"
  unfolding Game_checkWin_def lines_def
  by (simp add: case_if_Some cong del: if_weak_cong split del: if_split)

lemma line_cells:
  "((a, b), (c, d), (e, f)) \<in> set lines \<Longrightarrow>
   (a, b) \<in> set cells \<and> (c, d) \<in> set cells \<and> (e, f) \<in> set cells"
  by (auto simp: lines_def cells_def)

lemma cell_in_set: "length g = 9 \<Longrightarrow> (i, j) \<in> set cells \<Longrightarrow> cell g i j \<in> set g"
proof -
  assume len: "length g = 9" and "(i, j) \<in> set cells"
  from cells_range[OF this(2)] have r: "0 \<le> 3 * i + j" "3 * i + j < 9" by auto
  then have "nat (3 * i + j) < length g" using len by simp
  then show ?thesis unfolding cell_def by (rule nth_mem)
qed

lemma find_SomeD: "find P xs = Some x \<Longrightarrow> x \<in> set xs \<and> P x"
  by (induction xs) (auto split: if_splits)

lemma cell_mark:
  "marks_ok g \<Longrightarrow> (i, j) \<in> set cells \<Longrightarrow>
   cell g i j = CHR '' '' \<or> cell g i j = CHR ''X'' \<or> cell g i j = CHR ''O''"
  using cell_in_set[of g i j] by (auto simp: marks_ok_def list_all_iff)

lemma movesLeft_list_ex: "length g = 9 \<Longrightarrow> Game_isMovesLeft g = list_ex (\<lambda>x. x = CHR '' '') g"
proof -
  assume "length g = 9"
  then obtain a b c d e f h i j where g: "g = [a, b, c, d, e, f, h, i, j]"
    using nine_cells by blast
  show ?thesis unfolding g by (simp add: Game_isMovesLeft_def cells_def cell_def)
qed

lemma complete_mark:
  assumes ok: "marks_ok g" and mem: "l \<in> set lines" and c: "complete g l"
  shows "\<exists>m. (m = CHR ''X'' \<or> m = CHR ''O'') \<and> line_of g m l \<and> cell g (fst (fst l)) (snd (fst l)) = m"
proof -
  obtain a b p q e f where l: "l = ((a, b), (p, q), (e, f))" by (metis prod.collapse)
  from line_cells[OF mem[unfolded l]] have "(a, b) \<in> set cells" by simp
  from cell_mark[OF ok this] c show ?thesis unfolding l by auto
qed

lemma line_complete: "m \<noteq> CHR '' '' \<Longrightarrow> line_of g m l \<Longrightarrow> complete g l"
proof -
  obtain a b p q e f where l: "l = ((a, b), (p, q), (e, f))" by (metis prod.collapse)
  show "m \<noteq> CHR '' '' \<Longrightarrow> line_of g m l \<Longrightarrow> complete g l" unfolding l by simp
qed

lemma first_line:
  assumes ok: "marks_ok g" and mem: "l \<in> set lines" and m: "m = CHR ''X'' \<or> m = CHR ''O''"
    and lm: "line_of g m l" and no: "\<not> has_line g (other m)"
  shows "\<exists>l'. find (complete g) lines = Some l' \<and> cell g (fst (fst l')) (snd (fst l')) = m"
proof -
  from m have "m \<noteq> CHR '' ''" by auto
  from line_complete[OF this lm] mem have "\<exists>x \<in> set lines. complete g x" by blast
  then have "find (complete g) lines \<noteq> None"
    unfolding find_None_iff by blast
  then obtain l' where l': "find (complete g) lines = Some l'" by auto
  then have in': "l' \<in> set lines" and c': "complete g l'"
    using find_SomeD[of "complete g" lines l'] by simp_all
  from complete_mark[OF ok in' c'] obtain m' where
    m': "m' = CHR ''X'' \<or> m' = CHR ''O''" "line_of g m' l'" "cell g (fst (fst l')) (snd (fst l')) = m'"
    by blast
  have "m' = m"
  proof (rule ccontr)
    assume "m' \<noteq> m"
    with m m' have "m' = other m" by (auto simp: other_def)
    with m'(2) in' have "has_line g (other m)" by (auto simp: has_line_def list_ex_iff)
    with no show False ..
  qed
  with l' m'(3) show ?thesis by simp
qed

lemma no_line:
  assumes ok: "marks_ok g" and "\<not> has_line g CHR ''X''" and "\<not> has_line g CHR ''O''"
  shows "find (complete g) lines = None"
proof (rule ccontr)
  assume "find (complete g) lines \<noteq> None"
  then obtain l' where "find (complete g) lines = Some l'" by auto
  then have in': "l' \<in> set lines" and c': "complete g l'"
    using find_SomeD[of "complete g" lines l'] by simp_all
  from complete_mark[OF ok in' c'] obtain m' where
    "m' = CHR ''X'' \<or> m' = CHR ''O''" "line_of g m' l'" by blast
  with in' have "has_line g CHR ''X'' \<or> has_line g CHR ''O''"
    by (auto simp: has_line_def list_ex_iff)
  with assms(2,3) show False by simp
qed

lemma checkWin_line:
  assumes "marks_ok g" and "l \<in> set lines" and "m = CHR ''X'' \<or> m = CHR ''O''"
    and "line_of g m l" and "\<not> has_line g (other m)"
  shows "Game_checkWin g = (if m = CHR ''X'' then 1 else - 1)"
proof -
  from first_line[OF assms] obtain l' where
    l': "find (complete g) lines = Some l'" "cell g (fst (fst l')) (snd (fst l')) = m" by blast
  show ?thesis unfolding checkWin_find l'(1) using l'(2) by (simp add: case_prod_beta)
qed

lemma checkWin_has_line:
  assumes "marks_ok g" and "m = CHR ''X'' \<or> m = CHR ''O''"
    and "has_line g m" and "\<not> has_line g (other m)"
  shows "Game_checkWin g = (if m = CHR ''X'' then 1 else - 1)"
proof -
  from assms(3) obtain l where "l \<in> set lines" "line_of g m l"
    by (auto simp: has_line_def list_ex_iff)
  from checkWin_line[OF assms(1) this(1) assms(2) this(2) assms(4)] show ?thesis .
qed

lemma checkWin_no_line:
  assumes "marks_ok g" and "\<not> has_line g CHR ''X''" and "\<not> has_line g CHR ''O''"
  shows "Game_checkWin g = (if \<not> Game_isMovesLeft g then 0 else 2)"
  unfolding checkWin_find no_line[OF assms] by simp

subsection \<open>Applying a move, as the specification words it\<close>

text \<open>
  \<open>apply_spec\<close> follows the specification's \<open>apply(row, col, mark)\<close>: it fails with
  \<open>OutOfRange\<close> when \<open>row\<close> or \<open>col\<close> is outside \<open>[0, 2]\<close> and overwrites the cell
  otherwise.
\<close>

datatype error = OutOfRange

definition apply_spec :: "Game \<Rightarrow> int \<Rightarrow> int \<Rightarrow> char \<Rightarrow> error + Game" where
  "apply_spec g r c m =
     (if r < 0 \<or> r > 2 \<or> c < 0 \<or> c > 2 then Inl OutOfRange
      else Inr (g[nat (3 * r + c) := m]))"

lemma cells_iff: "(i, j) \<in> set cells \<longleftrightarrow> 0 \<le> i \<and> i \<le> 2 \<and> 0 \<le> j \<and> j \<le> 2"
proof
  assume "(i, j) \<in> set cells"
  then show "0 \<le> i \<and> i \<le> 2 \<and> 0 \<le> j \<and> j \<le> 2" by (auto simp: cells_def)
next
  assume "0 \<le> i \<and> i \<le> 2 \<and> 0 \<le> j \<and> j \<le> 2"
  then have "(i = 0 \<or> i = 1 \<or> i = 2) \<and> (j = 0 \<or> j = 1 \<or> j = 2)" by auto
  then show "(i, j) \<in> set cells" by (auto simp: cells_def)
qed

lemma index_inj:
  assumes "(i, j) \<in> set cells" "(a, b) \<in> set cells"
  shows "nat (3 * a + b) = nat (3 * i + j) \<longleftrightarrow> (a, b) = (i, j)"
proof -
  from assms have r: "0 \<le> i" "i \<le> 2" "0 \<le> j" "j \<le> 2" "0 \<le> a" "a \<le> 2" "0 \<le> b" "b \<le> 2"
    unfolding cells_iff by simp_all
  then have "nat (3 * a + b) = nat (3 * i + j) \<longleftrightarrow> 3 * a + b = 3 * i + j"
    by (intro eq_nat_nat_iff) simp_all
  also have "\<dots> \<longleftrightarrow> a = i \<and> b = j" using r by presburger
  finally show ?thesis by simp
qed

lemma cell_makeMove:
  assumes "length g = 9" "(i, j) \<in> set cells" "(a, b) \<in> set cells"
  shows "cell (Game_makeMove g i j x) a b = (if (a, b) = (i, j) then x else cell g a b)"
proof -
  from cells_range[OF assms(2)] have r: "0 \<le> 3 * i + j" "3 * i + j < 9" by auto
  then have lt: "nat (3 * i + j) < length g" using assms(1) by simp
  show ?thesis
  proof (cases "(a, b) = (i, j)")
    case True
    then show ?thesis using r lt by (simp add: cell_def Game_makeMove_def)
  next
    case False
    with index_inj[OF assms(2,3)] have "nat (3 * a + b) \<noteq> nat (3 * i + j)" by simp
    then show ?thesis using r False by (auto simp: cell_def Game_makeMove_def)
  qed
qed

subsection \<open>Values at and next to a finished game\<close>

lemma marks_ok_makeMove:
  assumes "marks_ok g" "x = CHR ''X'' \<or> x = CHR ''O''"
  shows "marks_ok (Game_makeMove g i j x)"
proof -
  have "set (g[nat (3 * i + j) := x]) \<subseteq> insert x (set g)" by (rule set_update_subset_insert)
  with assms show ?thesis by (auto simp: marks_ok_def list_all_iff Game_makeMove_def)
qed

lemma line_kept:
  assumes len: "length g = 9" and mem: "(i, j) \<in> set cells" and l: "l \<in> set lines"
    and ne: "x \<noteq> m" and ln: "line_of (Game_makeMove g i j x) m l"
  shows "line_of g m l"
proof -
  obtain a b p q e f where l': "l = ((a, b), (p, q), (e, f))" by (metis prod.collapse)
  from line_cells[OF l[unfolded l']] have c: "(a, b) \<in> set cells" "(p, q) \<in> set cells" "(e, f) \<in> set cells"
    by simp_all
  from ln ne show ?thesis
    unfolding l' using cell_makeMove[OF len mem c(1), of x] cell_makeMove[OF len mem c(2), of x]
      cell_makeMove[OF len mem c(3), of x]
    by (auto split: if_splits)
qed

lemma has_line_kept:
  assumes "length g = 9" "(i, j) \<in> set cells" "x \<noteq> m" "has_line (Game_makeMove g i j x) m"
  shows "has_line g m"
proof -
  from assms(4) obtain l where l: "l \<in> set lines" "line_of (Game_makeMove g i j x) m l"
    by (auto simp: has_line_def list_ex_iff)
  from line_kept[OF assms(1,2) l(1) assms(3) l(2)] l(1) show ?thesis
    by (auto simp: has_line_def list_ex_iff)
qed

lemma value_O_line:
  assumes "marks_ok g" "has_line g CHR ''O''" "\<not> has_line g CHR ''X''"
  shows "minimax_value g d m = 10 - d"
proof -
  from assms(1) have len: "length g = 9" by (simp add: marks_ok_def)
  have "Game_checkWin g = - 1"
    using checkWin_has_line[OF assms(1), of "CHR ''O''"] assms(2,3) by (simp add: other_def)
  then show ?thesis using len evaluate_checkWin[of g] by (subst minimax_value.simps) simp
qed

lemma value_X_line:
  assumes "marks_ok g" "has_line g CHR ''X''" "\<not> has_line g CHR ''O''"
  shows "minimax_value g d m = - 10 + d"
proof -
  from assms(1) have len: "length g = 9" by (simp add: marks_ok_def)
  have "Game_checkWin g = 1"
    using checkWin_has_line[OF assms(1), of "CHR ''X''"] assms(2,3) by (simp add: other_def)
  then show ?thesis using len evaluate_checkWin[of g] by (subst minimax_value.simps) simp
qed

lemma value_O_wins_next:
  assumes ok: "marks_ok g" and nx: "\<not> has_line g CHR ''X''" and no: "\<not> has_line g CHR ''O''"
    and mv: "(i, j) \<in> set (legal g)" and win: "has_line (Game_makeMove g i j CHR ''O'') CHR ''O''"
  shows "minimax_value g 0 True = 9"
proof -
  from ok have len: "length g = 9" by (simp add: marks_ok_def)
  from mv have ml: "Game_isMovesLeft g" by (auto simp: isMovesLeft_legal)
  from mv have mem: "(i, j) \<in> set cells" and free: "cell g i j = CHR '' ''"
    by (auto simp: legal_def)
  have cw: "Game_checkWin g = 2" using checkWin_no_line[OF ok nx no] ml by simp
  let ?f = "\<lambda>(i, j). minimax_value (Game_makeMove g i j CHR ''O'') (0 + 1) False"
  let ?vs = "map ?f (legal g)"
  have eq: "minimax_value g 0 True = foldl (\<lambda>best val. if val > best then val else best) (- INT_MAX) ?vs"
    using len cw ml evaluate_checkWin[of g] by (subst minimax_value.simps) simp
  have "\<not> has_line (Game_makeMove g i j CHR ''O'') CHR ''X''"
    using has_line_kept[OF len mem, of "CHR ''O''" "CHR ''X''"] nx by auto
  from value_O_line[OF marks_ok_makeMove[OF ok] win this, of 1 False]
  have nine: "minimax_value (Game_makeMove g i j CHR ''O'') (0 + 1) False = 9" by simp
  then have "9 \<in> set ?vs" using mv by (force simp: image_iff)
  from run_max_ge_mem[OF this, of "- INT_MAX"]
  have ge: "9 \<le> foldl (\<lambda>best val. if val > best then val else best) (- INT_MAX) ?vs" .
  have ub: "\<And>v. v \<in> set ?vs \<Longrightarrow> v \<le> 9"
  proof -
    fix v assume "v \<in> set ?vs"
    then obtain a b where ab: "(a, b) \<in> set (legal g)"
      "v = minimax_value (Game_makeMove g a b CHR ''O'') (0 + 1) False" by auto
    then have "(a, b) \<in> set cells" "cell g a b = CHR '' ''" by (auto simp: legal_def)
    from empties_makeMove[OF len this, of "CHR ''O''"] empties_le_length[of g] len
    have "1 + int (empties (Game_makeMove g a b CHR ''O'')) \<le> 10" by simp
    from value_bounds[OF _ this, of False] ab(2) show "v \<le> 9" by simp
  qed
  have "foldl (\<lambda>best val. if val > best then val else best) (- INT_MAX) ?vs \<in> set (- INT_MAX # ?vs)"
    by (rule run_max_mem)
  then have le: "foldl (\<lambda>best val. if val > best then val else best) (- INT_MAX) ?vs \<le> 9"
    by (rule mem_bound_le[rotated 2]) (simp_all add: INT_MAX_def ub)
  from ge le eq show ?thesis by simp
qed

lemma value_X_wins_next:
  assumes ok: "marks_ok g" and nx: "\<not> has_line g CHR ''X''" and no: "\<not> has_line g CHR ''O''"
    and mv: "(i, j) \<in> set (legal g)" and win: "has_line (Game_makeMove g i j CHR ''X'') CHR ''X''"
  shows "minimax_value g 0 False = - 9"
proof -
  from ok have len: "length g = 9" by (simp add: marks_ok_def)
  from mv have ml: "Game_isMovesLeft g" by (auto simp: isMovesLeft_legal)
  from mv have mem: "(i, j) \<in> set cells" and free: "cell g i j = CHR '' ''"
    by (auto simp: legal_def)
  have cw: "Game_checkWin g = 2" using checkWin_no_line[OF ok nx no] ml by simp
  let ?f = "\<lambda>(i, j). minimax_value (Game_makeMove g i j CHR ''X'') (0 + 1) True"
  let ?vs = "map ?f (legal g)"
  have eq: "minimax_value g 0 False = foldl (\<lambda>best val. if val < best then val else best) INT_MAX ?vs"
    using len cw ml evaluate_checkWin[of g] by (subst minimax_value.simps) simp
  have "\<not> has_line (Game_makeMove g i j CHR ''X'') CHR ''O''"
    using has_line_kept[OF len mem, of "CHR ''X''" "CHR ''O''"] no by auto
  from value_X_line[OF marks_ok_makeMove[OF ok] win this, of 1 True]
  have nine: "minimax_value (Game_makeMove g i j CHR ''X'') (0 + 1) True = - 9" by simp
  then have "- 9 \<in> set ?vs" using mv by (force simp: image_iff)
  from run_min_le_mem[OF this, of INT_MAX]
  have le: "foldl (\<lambda>best val. if val < best then val else best) INT_MAX ?vs \<le> - 9" .
  have lb: "\<And>v. v \<in> set ?vs \<Longrightarrow> - 9 \<le> v"
  proof -
    fix v assume "v \<in> set ?vs"
    then obtain a b where ab: "(a, b) \<in> set (legal g)"
      "v = minimax_value (Game_makeMove g a b CHR ''X'') (0 + 1) True" by auto
    then have "(a, b) \<in> set cells" "cell g a b = CHR '' ''" by (auto simp: legal_def)
    from empties_makeMove[OF len this, of "CHR ''X''"] empties_le_length[of g] len
    have "1 + int (empties (Game_makeMove g a b CHR ''X'')) \<le> 10" by simp
    from value_bounds[OF _ this, of True] ab(2) show "- 9 \<le> v" by simp
  qed
  have "foldl (\<lambda>best val. if val < best then val else best) INT_MAX ?vs \<in> set (INT_MAX # ?vs)"
    by (rule run_min_mem)
  then have ge: "- 9 \<le> foldl (\<lambda>best val. if val < best then val else best) INT_MAX ?vs"
    by (rule mem_bound_ge[rotated 2]) (simp_all add: INT_MAX_def lb)
  from ge le eq show ?thesis by simp
qed

subsection \<open>Certifying the first best move\<close>

text \<open>
  \<open>best_cert g kb t\<close> checks, with \<open>cert\<close>, that the legal moves before cell \<open>kb\<close> score
  below \<open>t\<close>, that \<open>kb\<close> scores at least \<open>t\<close> and that the moves after it score at most
  \<open>t\<close>; then \<open>kb\<close> is the first best move (\<open>best_cert_sound\<close>).
\<close>

definition best_cert :: "Game \<Rightarrow> nat \<Rightarrow> int \<Rightarrow> bool" where
  "best_cert g kb t =
     (kb < 9 \<and> g ! kb = CHR '' '' \<and>
      list_all (\<lambda>k. if g ! k = CHR '' ''
                     then cert (k \<noteq> kb) 9 (if k < kb then t - 1 else t) (g[k := CHR ''O'']) 0 False
                     else True)
        [0, 1, 2, 3, 4, 5, 6, 7, 8])"

lemma candidates_flat:
  "candidates g =
     map (\<lambda>k. \<lparr>cand_row = fst (pos k), cand_col = snd (pos k),
                 cand_score = minimax_value (g[k := CHR ''O'']) 0 False\<rparr>) (free_cells g)"
proof -
  have "candidates g =
      map (\<lambda>k. \<lparr>cand_row = fst (pos k), cand_col = snd (pos k),
                  cand_score = score g (fst (pos k)) (snd (pos k))\<rparr>) (free_cells g)"
    by (simp add: candidates_def legal_pos case_prod_beta comp_def)
  also have "\<dots> = map (\<lambda>k. \<lparr>cand_row = fst (pos k), cand_col = snd (pos k),
                 cand_score = minimax_value (g[k := CHR ''O'']) 0 False\<rparr>) (free_cells g)"
    by (rule map_cong) (simp_all add: free_cells_set score_def makeMove_pos)
  finally show ?thesis .
qed

lemma find_mapped: "find P (map f xs) = map_option f (find (\<lambda>x. P (f x)) xs)"
  by (induction xs) simp_all

lemma free_cells_sorted: "sorted_wrt (<) (free_cells g)"
  unfolding free_cells_def upt9 by (intro sorted_wrt_filter) simp

lemma find_first_sorted:
  assumes srt: "sorted_wrt (<) (xs :: nat list)" and mem: "kb \<in> set xs"
    and before: "\<And>k. k \<in> set xs \<Longrightarrow> k < kb \<Longrightarrow> \<not> P k" and at: "P kb"
  shows "find P xs = Some kb"
proof -
  from mem obtain i where i: "i < length xs" "xs ! i = kb" by (auto simp: in_set_conv_nth)
  have "\<forall>j<i. \<not> P (xs ! j)"
  proof (intro allI impI)
    fix j assume j: "j < i"
    with srt i(1) have "xs ! j < xs ! i" by (simp add: sorted_wrt_iff_nth_less)
    moreover have "xs ! j \<in> set xs" using j i(1) by simp
    ultimately show "\<not> P (xs ! j)" using before i(2) by simp
  qed
  with i at show ?thesis unfolding find_Some_iff by blast
qed

lemma best_cert_sound:
  assumes len: "length g = 9" and bc: "best_cert g kb t"
  shows "first_best g = Some \<lparr>cand_row = fst (pos kb), cand_col = snd (pos kb),
                               cand_score = best_score g\<rparr>"
    and "best_score g = minimax_value (g[kb := CHR ''O'']) 0 False"
    and "t \<le> best_score g"
proof -
  let ?f = "\<lambda>k. minimax_value (g[k := CHR ''O'']) 0 False"
  let ?mk = "\<lambda>k. \<lparr>cand_row = fst (pos k), cand_col = snd (pos k), cand_score = ?f k\<rparr>"
  from bc have kb: "kb \<in> set (free_cells g)" by (simp add: best_cert_def free_cells_set)
  have each: "\<And>k. k \<in> set (free_cells g) \<Longrightarrow>
      cert (k \<noteq> kb) 9 (if k < kb then t - 1 else t) (g[k := CHR ''O'']) 0 False"
  proof -
    fix k assume k: "k \<in> set (free_cells g)"
    then have "k \<in> set [0..<9]" "g ! k = CHR '' ''"
      unfolding free_cells_set by simp_all
    with bc show "cert (k \<noteq> kb) 9 (if k < kb then t - 1 else t) (g[k := CHR ''O'']) 0 False"
      unfolding best_cert_def upt9 list_all_iff by (simp del: upt_Suc set_upt)
  qed
  have snd: "\<And>k. k \<in> set (free_cells g) \<Longrightarrow>
      within (k \<noteq> kb) (?f k) (if k < kb then t - 1 else t)"
    using cert_sound[OF each] len by simp
  from snd[OF kb] have ge: "t \<le> ?f kb" by (simp add: within_def)
  have lt: "\<And>k. k \<in> set (free_cells g) \<Longrightarrow> k < kb \<Longrightarrow> ?f k < ?f kb"
    using snd ge by (fastforce simp: within_def)
  have le: "\<And>k. k \<in> set (free_cells g) \<Longrightarrow> ?f k \<le> ?f kb"
  proof -
    fix k assume k: "k \<in> set (free_cells g)"
    show "?f k \<le> ?f kb"
    proof (cases "k = kb")
      case True then show ?thesis by simp
    next
      case False
      with snd[OF k] ge show ?thesis by (auto simp: within_def split: if_splits)
    qed
  qed
  have "Max (set (map cand_score (candidates g))) = ?f kb"
  proof (rule Max_eqI)
    show "finite (set (map cand_score (candidates g)))" by simp
  next
    fix y assume "y \<in> set (map cand_score (candidates g))"
    then obtain k where "k \<in> set (free_cells g)" "y = ?f k"
      unfolding candidates_flat by auto
    with le show "y \<le> ?f kb" by simp
  next
    show "?f kb \<in> set (map cand_score (candidates g))"
      unfolding candidates_flat using kb by (auto simp: image_iff)
  qed
  then show bs: "best_score g = ?f kb" by (simp add: best_score_def)
  with ge show "t \<le> best_score g" by simp
  have "find (\<lambda>k. ?f k = ?f kb) (free_cells g) = Some kb"
  proof (rule find_first_sorted[OF free_cells_sorted kb])
    fix k assume "k \<in> set (free_cells g)" "k < kb"
    from lt[OF this] show "\<not> ?f k = ?f kb" by simp
  next
    show "?f kb = ?f kb" by simp
  qed
  then have "find (\<lambda>c. cand_score c = ?f kb) (map ?mk (free_cells g)) = Some (?mk kb)"
    by (simp add: find_mapped)
  then show "first_best g = Some \<lparr>cand_row = fst (pos kb), cand_col = snd (pos kb),
                               cand_score = best_score g\<rparr>"
    unfolding first_best_def bs candidates_flat by simp
qed

lemma ongoing_movesLeft: "Game_checkWin g = 2 \<Longrightarrow> Game_isMovesLeft g"
  using checkWin_draw[of g] by simp

lemma play_step:
  assumes g: "game s = g" and len: "length g = 9" and cw: "Game_checkWin g = 2"
    and bc: "best_cert g kb t" and d: "difficulty (if turn = 0 then ai1 else ai2) = 2"
    and g': "g[kb := (if turn = 0 then CHR ''X'' else CHR ''O'')] = g'"
    and turn': "1 - turn = turn'" and step': "step + 1 = step'"
  shows "\<exists>s'. game s' = g'
           \<and> play_loop ai1 ai2 rnd s turn step = play_loop ai1 ai2 rnd s' turn' step'"
proof -
  let ?ai = "if turn = 0 then ai1 else ai2"
  let ?x = "if turn = 0 then CHR ''X'' else CHR ''O''"
  have ml: "Game_isMovesLeft (game s)" using ongoing_movesLeft[OF cw] g by simp
  have len': "length (game s) = 9" using len g by simp
  from impl_hard[OF len' ml d, of "rnd step"] obtain s1 c where c:
    "first_best (game s) = Some c" "game s1 = game s"
    "AI_findBestMove_impl ?ai (rnd step) s = Some (move_of c, s1)" by blast
  from best_cert_sound(1)[OF len bc] c(1) g
  have mv: "move_of c = \<lparr>row = fst (pos kb), col = snd (pos kb)\<rparr>" by (auto simp: move_of_def)
  from bc have "kb < 9" by (simp add: best_cert_def)
  from makeMove_pos[OF this, of g ?x]
  have upd: "Game_makeMove g (fst (pos kb)) (snd (pos kb)) ?x = g[kb := ?x]" .
  let ?s' = "s1\<lparr>game := Game_makeMove (game s1) (row (move_of c)) (col (move_of c)) ?x\<rparr>"
  have "game ?s' = g'" using c(2) g mv upd g' by simp
  moreover have "play_loop ai1 ai2 rnd s turn step = play_loop ai1 ai2 rnd ?s' turn' step'"
    unfolding turn'[symmetric] step'[symmetric]
    by (subst play_loop.simps) (simp add: g cw c(3))
  ultimately show ?thesis by blast
qed

lemma play_done:
  "Game_checkWin (game s) = 0 \<Longrightarrow> play_loop ai1 ai2 rnd s turn step = Some (CHR ''D'', s)"
  by (subst play_loop.simps) simp

subsection \<open>The positions of the self-play game\<close>

text \<open>
  For each position of the game, the move that \<open>best_cert\<close> certifies as the first best
  one, checked by evaluation; the empty board takes most of the work.
\<close>

lemma position0_best: "best_cert ''         '' 0 0"
  by code_simp

lemma position1_best: "best_cert ''X        '' 4 0"
  by code_simp

lemma position2_best: "best_cert ''X   O    '' 1 0"
  by code_simp

lemma position3_best: "best_cert ''XX  O    '' 2 0"
  by code_simp

lemma position4_best: "best_cert ''XXO O    '' 6 10"
  by code_simp

lemma position5_best: "best_cert ''XXO O X  '' 3 0"
  by code_simp

lemma position6_best: "best_cert ''XXOOO X  '' 5 10"
  by code_simp

lemma position7_best: "best_cert ''XXOOOXX  '' 7 0"
  by code_simp

lemma position8_best: "best_cert ''XXOOOXXO '' 8 0"
  by code_simp

lemma opening_not_positive: "cert True 9 0 ''O        '' 0 False"
  by code_simp

lemma positions_ongoing:
  "Game_checkWin ''         '' = 2"
  "Game_checkWin ''X        '' = 2"
  "Game_checkWin ''X   O    '' = 2"
  "Game_checkWin ''XX  O    '' = 2"
  "Game_checkWin ''XXO O    '' = 2"
  "Game_checkWin ''XXO O X  '' = 2"
  "Game_checkWin ''XXOOO X  '' = 2"
  "Game_checkWin ''XXOOOXX  '' = 2"
  "Game_checkWin ''XXOOOXXO '' = 2"
  by code_simp+

lemma final_position_draw: "Game_checkWin ''XXOOOXXOX'' = 0"
  by code_simp

lemma positions_next:
  "''         ''[0 := CHR ''X''] = ''X        ''"
  "''X        ''[4 := CHR ''O''] = ''X   O    ''"
  "''X   O    ''[1 := CHR ''X''] = ''XX  O    ''"
  "''XX  O    ''[2 := CHR ''O''] = ''XXO O    ''"
  "''XXO O    ''[6 := CHR ''X''] = ''XXO O X  ''"
  "''XXO O X  ''[3 := CHR ''O''] = ''XXOOO X  ''"
  "''XXOOO X  ''[5 := CHR ''X''] = ''XXOOOXX  ''"
  "''XXOOOXX  ''[7 := CHR ''O''] = ''XXOOOXXO ''"
  "''XXOOOXXO ''[8 := CHR ''X''] = ''XXOOOXXOX''"
  by code_simp+

lemma empty_board_best_score: "best_score ''         '' = 0"
proof -
  have len: "length ''         '' = 9" by simp
  have upd: "''         ''[0 := CHR ''O''] = ''O        ''" by code_simp
  from best_cert_sound(2,3)[OF len position0_best]
  have ge: "0 \<le> minimax_value ''O        '' 0 False"
    and eq: "best_score ''         '' = minimax_value ''O        '' 0 False"
    unfolding upd by simp_all
  from cert_sound[OF opening_not_positive] have "minimax_value ''O        '' 0 False \<le> 0"
    by (simp add: within_def)
  with ge eq show ?thesis by simp
qed

subsection \<open>The mark on the first complete line\<close>

text \<open>
  \<open>first_line_mark g\<close> is the mark on the first complete line of \<open>g\<close> in the scan order of
  \<^verbatim>\<open>Game_checkWin\<close>, if there is one: the line that decides \<^verbatim>\<open>AI_evaluate\<close>, also on a
  board where both marks have a line.
\<close>

definition first_line_mark :: "Game \<Rightarrow> char option" where
  "first_line_mark g =
     map_option (\<lambda>l. cell g (fst (fst l)) (snd (fst l))) (find (complete g) lines)"

lemma checkWin_first_line:
  "Game_checkWin g =
     (case first_line_mark g of
        Some m \<Rightarrow> (if m = CHR ''X'' then 1 else - 1)
      | None \<Rightarrow> if \<not> Game_isMovesLeft g then 0 else 2)"
  unfolding checkWin_find first_line_mark_def
  by (cases "find (complete g) lines") (simp_all add: case_prod_beta)

lemma first_line_mark_cases:
  assumes "marks_ok g"
  shows "first_line_mark g = None \<or> first_line_mark g = Some CHR ''X''
         \<or> first_line_mark g = Some CHR ''O''"
proof (cases "find (complete g) lines")
  case None
  then show ?thesis by (simp add: first_line_mark_def)
next
  case (Some l)
  then have "l \<in> set lines" "complete g l"
    using find_SomeD[of "complete g" lines l] by simp_all
  from complete_mark[OF assms this] Some show ?thesis
    by (auto simp: first_line_mark_def)
qed

lemma first_line_mark_only:
  assumes "marks_ok g" and "m = CHR ''X'' \<or> m = CHR ''O''"
    and "has_line g m" and "\<not> has_line g (other m)"
  shows "first_line_mark g = Some m"
proof -
  from assms(3) obtain l where "l \<in> set lines" "line_of g m l"
    by (auto simp: has_line_def list_ex_iff)
  from first_line[OF assms(1) this(1) assms(2) this(2) assms(4)]
  show ?thesis by (auto simp: first_line_mark_def)
qed

lemma first_line_mark_none:
  assumes "marks_ok g" and "\<not> has_line g CHR ''X''" and "\<not> has_line g CHR ''O''"
  shows "first_line_mark g = None"
  using no_line[OF assms] by (simp add: first_line_mark_def)

lemma value_first_O:
  assumes "length g = 9" and "first_line_mark g = Some CHR ''O''"
  shows "minimax_value g d m = 10 - d"
proof -
  have "Game_checkWin g = - 1" unfolding checkWin_first_line assms(2) by simp
  then show ?thesis using assms(1) evaluate_checkWin[of g] by (subst minimax_value.simps) simp
qed

lemma value_first_X:
  assumes "length g = 9" and "first_line_mark g = Some CHR ''X''"
  shows "minimax_value g d m = - 10 + d"
proof -
  have "Game_checkWin g = 1" unfolding checkWin_first_line assms(2) by simp
  then show ?thesis using assms(1) evaluate_checkWin[of g] by (subst minimax_value.simps) simp
qed

lemma value_no_line_full:
  assumes "length g = 9" and "first_line_mark g = None" and "\<not> Game_isMovesLeft g"
  shows "minimax_value g d m = 0"
proof -
  have "Game_checkWin g = 0" unfolding checkWin_first_line assms(2) using assms(3) by simp
  then show ?thesis using assms(1,3) evaluate_checkWin[of g] by (subst minimax_value.simps) simp
qed

lemma no_line_iff:
  assumes "marks_ok g"
  shows "first_line_mark g = None \<longleftrightarrow> \<not> has_line g CHR ''X'' \<and> \<not> has_line g CHR ''O''"
proof
  assume n: "first_line_mark g = None"
  show "\<not> has_line g CHR ''X'' \<and> \<not> has_line g CHR ''O''"
  proof (rule ccontr)
    assume "\<not> (\<not> has_line g CHR ''X'' \<and> \<not> has_line g CHR ''O'')"
    then have "has_line g CHR ''X'' \<or> has_line g CHR ''O''" by simp
    then obtain m where mm: "m = CHR ''X'' \<or> m = CHR ''O''" "has_line g m" by blast
    from mm(2) obtain l where "l \<in> set lines" "line_of g m l"
      unfolding has_line_def list_ex_iff by blast
    with mm(1) have m: "m = CHR ''X'' \<or> m = CHR ''O''" "l \<in> set lines" "line_of g m l"
      by simp_all
    then have "m \<noteq> CHR '' ''" by auto
    from line_complete[OF this m(3)] m(2) have "\<exists>x \<in> set lines. complete g x" by blast
    then have "find (complete g) lines \<noteq> None" unfolding find_None_iff by blast
    with n show False by (simp add: first_line_mark_def)
  qed
next
  assume "\<not> has_line g CHR ''X'' \<and> \<not> has_line g CHR ''O''"
  then show "first_line_mark g = None" using first_line_mark_none[OF assms] by simp
qed

subsection \<open>The same match with O moving first\<close>

text \<open>
  \<^verbatim>\<open>playAIVsAI\<close> always starts with \<open>turn = 0\<close>. Started with \<open>turn = 1\<close> instead, the
  loop lets O open; X still takes the squares the O-maximizing selection returns.
\<close>

lemma play_won_O:
  "Game_checkWin (game s) = - 1 \<Longrightarrow> play_loop ai1 ai2 rnd s turn step = Some (CHR ''O'', s)"
  by (subst play_loop.simps) simp

lemma reply1_best: "best_cert ''O        '' 1 6"
  by code_simp

lemma reply2_best: "best_cert ''OX       '' 3 6"
  by code_simp

lemma reply3_best: "best_cert ''OX O     '' 6 10"
  by code_simp

lemma reply4_best: "best_cert ''OX O  X  '' 4 8"
  by code_simp

lemma reply5_best: "best_cert ''OX OO X  '' 5 10"
  by code_simp

lemma reply6_best: "best_cert ''OX OOXX  '' 8 10"
  by code_simp

lemma replies_ongoing:
  "Game_checkWin ''O        '' = 2"
  "Game_checkWin ''OX       '' = 2"
  "Game_checkWin ''OX O     '' = 2"
  "Game_checkWin ''OX O  X  '' = 2"
  "Game_checkWin ''OX OO X  '' = 2"
  "Game_checkWin ''OX OOXX  '' = 2"
  by code_simp+

lemma replies_final: "Game_checkWin ''OX OOXX O'' = - 1"
  by code_simp

lemma replies_next:
  "''         ''[0 := CHR ''O''] = ''O        ''"
  "''O        ''[1 := CHR ''X''] = ''OX       ''"
  "''OX       ''[3 := CHR ''O''] = ''OX O     ''"
  "''OX O     ''[6 := CHR ''X''] = ''OX O  X  ''"
  "''OX O  X  ''[4 := CHR ''O''] = ''OX OO X  ''"
  "''OX OO X  ''[5 := CHR ''X''] = ''OX OOXX  ''"
  "''OX OOXX  ''[8 := CHR ''O''] = ''OX OOXX O''"
  by code_simp+

lemma maximizer_first_O_wins:
  assumes d1: "difficulty ai1 = 2" and d2: "difficulty ai2 = 2"
  shows "\<exists>s'. play_loop ai1 ai2 rnd
            \<lparr>game = Game_init, g_nodesSearched = nodes0, g_maxDepthReached = depth0\<rparr> 1 1
          = Some (CHR ''O'', s')
        \<and> game s' = ''OX OOXX O''"
proof -
  let ?s0 = "\<lparr>game = Game_init, g_nodesSearched = nodes0, g_maxDepthReached = depth0\<rparr>"
  have d: "\<And>turn :: int. difficulty (if turn = 0 then ai1 else ai2) = 2"
    using d1 d2 by simp
  have g0: "game ?s0 = ''         ''" by (simp add: Game_init_def eval_nat_numeral)
  have "\<exists>s'. game s' = ''O        ''
      \<and> play_loop ai1 ai2 rnd ?s0 1 1 = play_loop ai1 ai2 rnd s' 0 2"
    by (rule play_step[OF g0 _ positions_ongoing(1) position0_best d]) (simp_all add: replies_next)
  then obtain s1 where g1: "game s1 = ''O        ''"
    and p1: "play_loop ai1 ai2 rnd ?s0 1 1 = play_loop ai1 ai2 rnd s1 0 2"
    by blast
  have "\<exists>s'. game s' = ''OX       ''
      \<and> play_loop ai1 ai2 rnd s1 0 2 = play_loop ai1 ai2 rnd s' 1 3"
    by (rule play_step[OF g1 _ replies_ongoing(1) reply1_best d]) (simp_all add: replies_next)
  then obtain s2 where g2: "game s2 = ''OX       ''"
    and p2: "play_loop ai1 ai2 rnd s1 0 2 = play_loop ai1 ai2 rnd s2 1 3"
    by blast
  have "\<exists>s'. game s' = ''OX O     ''
      \<and> play_loop ai1 ai2 rnd s2 1 3 = play_loop ai1 ai2 rnd s' 0 4"
    by (rule play_step[OF g2 _ replies_ongoing(2) reply2_best d]) (simp_all add: replies_next)
  then obtain s3 where g3: "game s3 = ''OX O     ''"
    and p3: "play_loop ai1 ai2 rnd s2 1 3 = play_loop ai1 ai2 rnd s3 0 4"
    by blast
  have "\<exists>s'. game s' = ''OX O  X  ''
      \<and> play_loop ai1 ai2 rnd s3 0 4 = play_loop ai1 ai2 rnd s' 1 5"
    by (rule play_step[OF g3 _ replies_ongoing(3) reply3_best d]) (simp_all add: replies_next)
  then obtain s4 where g4: "game s4 = ''OX O  X  ''"
    and p4: "play_loop ai1 ai2 rnd s3 0 4 = play_loop ai1 ai2 rnd s4 1 5"
    by blast
  have "\<exists>s'. game s' = ''OX OO X  ''
      \<and> play_loop ai1 ai2 rnd s4 1 5 = play_loop ai1 ai2 rnd s' 0 6"
    by (rule play_step[OF g4 _ replies_ongoing(4) reply4_best d]) (simp_all add: replies_next)
  then obtain s5 where g5: "game s5 = ''OX OO X  ''"
    and p5: "play_loop ai1 ai2 rnd s4 1 5 = play_loop ai1 ai2 rnd s5 0 6"
    by blast
  have "\<exists>s'. game s' = ''OX OOXX  ''
      \<and> play_loop ai1 ai2 rnd s5 0 6 = play_loop ai1 ai2 rnd s' 1 7"
    by (rule play_step[OF g5 _ replies_ongoing(5) reply5_best d]) (simp_all add: replies_next)
  then obtain s6 where g6: "game s6 = ''OX OOXX  ''"
    and p6: "play_loop ai1 ai2 rnd s5 0 6 = play_loop ai1 ai2 rnd s6 1 7"
    by blast
  have "\<exists>s'. game s' = ''OX OOXX O''
      \<and> play_loop ai1 ai2 rnd s6 1 7 = play_loop ai1 ai2 rnd s' 0 8"
    by (rule play_step[OF g6 _ replies_ongoing(6) reply6_best d]) (simp_all add: replies_next)
  then obtain s7 where g7: "game s7 = ''OX OOXX O''"
    and p7: "play_loop ai1 ai2 rnd s6 1 7 = play_loop ai1 ai2 rnd s7 0 8"
    by blast
  have "play_loop ai1 ai2 rnd s7 0 8 = Some (CHR ''O'', s7)"
    by (rule play_won_O) (simp add: g7 replies_final)
  with p1 p2 p3 p4 p5 p6 p7
  have "play_loop ai1 ai2 rnd ?s0 1 1 = Some (CHR ''O'', s7)" by simp
  then show ?thesis using g7 by blast
qed

section \<open>Verified properties\<close>

text \<open>
  C10. For every integer, \<^verbatim>\<open>AI_setDifficulty\<close> stores \<open>min (max level 0) 2\<close> and
  \<^verbatim>\<open>AI_setVerbose\<close> stores \<open>min (max v 0) 2\<close>. Both are total (nothing is rejected), each
  leaves the other field alone, and the stored value lies in \<open>[0, 2]\<close>.
\<close>

theorem setters_clamp:
  "difficulty (AI_setDifficulty ai level) = min (max level 0) 2
   \<and> verbose (AI_setVerbose ai v) = min (max v 0) 2
   \<and> 0 \<le> difficulty (AI_setDifficulty ai level) \<and> difficulty (AI_setDifficulty ai level) \<le> 2
   \<and> 0 \<le> verbose (AI_setVerbose ai v) \<and> verbose (AI_setVerbose ai v) \<le> 2
   \<and> verbose (AI_setDifficulty ai level) = verbose ai
   \<and> difficulty (AI_setVerbose ai v) = difficulty ai"
  by (simp add: AI_setDifficulty_def AI_setVerbose_def Let_def)

text \<open>
  C2. On a board of nine cells with a legal move left (every non-terminal board is one),
  with \<open>difficulty = 2\<close>, \<^verbatim>\<open>AI_findBestMove_impl\<close> returns the move of \<open>first_best\<close>:
  the first candidate in loop (row-major) order whose score equals the maximum score over
  all legal moves. The move depends on the board alone: the counters, the verbosity and the
  value of \<open>rand()\<close> do not change it, any call on any state holding the same board returns
  it, and so does a second call on the state the first one leaves.
\<close>

theorem hard_picks_first_best:
  assumes "length (game s) = 9" and "Game_isMovesLeft (game s)" and "difficulty ai = 2"
  shows "\<exists>c. first_best (game s) = Some c
     \<and> (\<exists>s'. AI_findBestMove_impl ai rnd s = Some (move_of c, s') \<and> game s' = game s
            \<and> (\<exists>s''. AI_findBestMove_impl ai rnd' s' = Some (move_of c, s'')))
     \<and> (\<forall>t ai' r. game t = game s \<and> difficulty ai' = 2
            \<longrightarrow> (\<exists>t'. AI_findBestMove_impl ai' r t = Some (move_of c, t')))"
proof -
  have any: "\<And>t ai' r. game t = game s \<Longrightarrow> difficulty ai' = 2 \<Longrightarrow>
      \<exists>t' c. first_best (game s) = Some c \<and> game t' = game s
        \<and> AI_findBestMove_impl ai' r t = Some (move_of c, t')"
  proof -
    fix t :: state and ai' :: AI and r :: nat
    assume g: "game t = game s" and d: "difficulty ai' = 2"
    from impl_hard[of t ai' r] assms(1,2) g d
    show "\<exists>t' c. first_best (game s) = Some c \<and> game t' = game s
        \<and> AI_findBestMove_impl ai' r t = Some (move_of c, t')"
      by simp
  qed
  from any[OF refl assms(3), of rnd] obtain s' c where c:
    "first_best (game s) = Some c" "game s' = game s"
    "AI_findBestMove_impl ai rnd s = Some (move_of c, s')" by blast
  from any[OF c(2) assms(3), of rnd'] c(1) obtain s'' where
    "AI_findBestMove_impl ai rnd' s' = Some (move_of c, s'')" by auto
  moreover have "\<forall>t ai' r. game t = game s \<and> difficulty ai' = 2
            \<longrightarrow> (\<exists>t'. AI_findBestMove_impl ai' r t = Some (move_of c, t'))"
    using any c(1) by fastforce
  ultimately show ?thesis using c by blast
qed

theorem hard_picks_first_best_witness:
  "length (game \<lparr>game = ''XXOOOXX  '', g_nodesSearched = 5, g_maxDepthReached = 3\<rparr>) = 9
   \<and> Game_isMovesLeft (game \<lparr>game = ''XXOOOXX  '', g_nodesSearched = 5, g_maxDepthReached = 3\<rparr>)
   \<and> difficulty \<lparr>difficulty = 2, verbose = 0\<rparr> = 2
   \<and> map_option fst (AI_findBestMove_impl \<lparr>difficulty = 2, verbose = 0\<rparr> 7
         \<lparr>game = ''XXOOOXX  '', g_nodesSearched = 5, g_maxDepthReached = 3\<rparr>)
       = Some \<lparr>row = 2, col = 1\<rparr>"
proof -
  let ?s = "\<lparr>game = ''XXOOOXX  '', g_nodesSearched = 5, g_maxDepthReached = 3\<rparr>"
  let ?ai = "\<lparr>difficulty = 2, verbose = 0\<rparr>"
  have h1: "length (game ?s) = 9" by simp
  have h2: "Game_isMovesLeft (game ?s)"
    by (simp add: Game_isMovesLeft_def cells_def cell_def)
  have h3: "difficulty ?ai = 2" by simp
  from hard_picks_first_best[OF h1 h2 h3, of 7 7] obtain c s' where
    c: "first_best (game ?s) = Some c" "AI_findBestMove_impl ?ai 7 ?s = Some (move_of c, s')"
    by blast
  from c(1) late_first_best have "cand_row c = 2" "cand_col c = 1" by auto
  then have "move_of c = \<lparr>row = 2, col = 1\<rparr>" by (simp add: move_of_def)
  with c(2) h1 h2 h3 show ?thesis by simp
qed

text \<open>
  C5. On a board of nine cells with a legal move left, with \<open>difficulty = 1\<close>, for every
  value \<open>rnd\<close> of \<open>rand()\<close>: the pool the code builds is exactly the list of the candidate
  indices whose score is at least \<open>max (best - 2) (-10)\<close>, it is not empty, and the move
  returned is the candidate at index \<open>pool[rnd % pn]\<close>, whose score meets that threshold.
\<close>

theorem medium_pick_within_threshold:
  assumes "length (game s) = 9" and "Game_isMovesLeft (game s)" and "difficulty ai = 1"
  shows "bounded_pool (game s) \<noteq> []
     \<and> pool_loop (candidates (game s)) (threshold_of (game s))
          [0..<length (candidates (game s))] [] = bounded_pool (game s)
     \<and> (\<exists>s'. AI_findBestMove_impl ai rnd s =
            Some (move_of (candidates (game s) !
                    (bounded_pool (game s) ! (rnd mod length (bounded_pool (game s))))), s'))
     \<and> bounded_pool (game s) ! (rnd mod length (bounded_pool (game s))) < length (candidates (game s))
     \<and> threshold_of (game s) \<le>
          cand_score (candidates (game s) !
             (bounded_pool (game s) ! (rnd mod length (bounded_pool (game s)))))"
proof -
  let ?g = "game s"
  let ?pool = "bounded_pool ?g"
  from best_index[OF assms(1,2)] obtain k0 where k0: "k0 < length (candidates ?g)"
    "cand_score (candidates ?g ! k0) = best_score ?g" by blast
  have "threshold_of ?g \<le> best_score ?g"
    using best_score_bounds[OF assms(1,2)] by (simp add: threshold_of_def)
  with k0 have "k0 \<in> set ?pool" by (simp add: bounded_pool_def)
  then have ne: "?pool \<noteq> []" by auto
  then have "rnd mod length ?pool < length ?pool" by simp
  then have "?pool ! (rnd mod length ?pool) \<in> set ?pool" by (rule nth_mem)
  then have pick: "?pool ! (rnd mod length ?pool) < length (candidates ?g)"
      "threshold_of ?g \<le> cand_score (candidates ?g ! (?pool ! (rnd mod length ?pool)))"
    by (simp_all add: bounded_pool_def)
  have loop: "pool_loop (candidates ?g) (threshold_of ?g) [0..<length (candidates ?g)] [] = ?pool"
    by (simp add: pool_loop_filter bounded_pool_def)
  from impl_medium[OF assms, of rnd] ne
  have "\<exists>s'. AI_findBestMove_impl ai rnd s =
            Some (move_of (candidates ?g ! (?pool ! (rnd mod length ?pool))), s')"
    by auto
  with ne loop pick show ?thesis by blast
qed

theorem medium_pick_within_threshold_witness:
  "length (game \<lparr>game = ''XXOOOXX  '', g_nodesSearched = 5, g_maxDepthReached = 3\<rparr>) = 9
   \<and> Game_isMovesLeft (game \<lparr>game = ''XXOOOXX  '', g_nodesSearched = 5, g_maxDepthReached = 3\<rparr>)
   \<and> difficulty \<lparr>difficulty = 1, verbose = 0\<rparr> = 1
   \<and> bounded_pool ''XXOOOXX  '' = [0, 1]
   \<and> map_option fst (AI_findBestMove_impl \<lparr>difficulty = 1, verbose = 0\<rparr> 1
         \<lparr>game = ''XXOOOXX  '', g_nodesSearched = 5, g_maxDepthReached = 3\<rparr>)
       = Some \<lparr>row = 2, col = 2\<rparr>
   \<and> threshold_of ''XXOOOXX  '' \<le> cand_score (candidates ''XXOOOXX  '' ! 1)"
proof -
  let ?s = "\<lparr>game = ''XXOOOXX  '', g_nodesSearched = 5, g_maxDepthReached = 3\<rparr>"
  let ?ai = "\<lparr>difficulty = 1, verbose = 0\<rparr>"
  have h1: "length (game ?s) = 9" by simp
  have h2: "Game_isMovesLeft (game ?s)"
    by (simp add: Game_isMovesLeft_def cells_def cell_def)
  have h3: "difficulty ?ai = 1" by simp
  have pick: "bounded_pool (game ?s) ! (1 mod length (bounded_pool (game ?s))) = 1"
    by (simp add: late_pool)
  from medium_pick_within_threshold[OF h1 h2 h3, of 1] obtain s' where
    r: "AI_findBestMove_impl ?ai 1 ?s = Some (move_of (candidates (game ?s) ! 1), s')"
       "threshold_of (game ?s) \<le> cand_score (candidates (game ?s) ! 1)"
    unfolding pick by blast
  from late_second have "move_of (candidates (game ?s) ! 1) = \<lparr>row = 2, col = 2\<rparr>"
    by (simp add: move_of_def)
  with r h1 h2 h3 late_pool show ?thesis by simp
qed

text \<open>
  C6. On every board of nine cells, best-move selection, prediction and explain all
  return, and the board they leave is the board they were given; so does every call of
  \<^verbatim>\<open>AI_minimax\<close>. Each placement of a mark on an empty cell followed by writing a
  space to the same cell gives the board back.
\<close>

theorem search_restores_board:
  assumes "length (game s) = 9"
  shows "(\<exists>mv s'. AI_findBestMove_impl ai rnd s = Some (mv, s') \<and> game s' = game s)
     \<and> (\<exists>p s'. AI_getPrediction ai s = Some (p, s') \<and> game s' = game s)
     \<and> (\<exists>n out s'. AI_explain ai maxOut s = Some (n, out, s') \<and> game s' = game s)
     \<and> (\<forall>n depth isMax. empties (game s) < n \<longrightarrow>
            (\<exists>v s'. AI_minimax n s depth isMax = Some (v, s') \<and> game s' = game s))
     \<and> (\<forall>i j x. cell (game s) i j = CHR '' '' \<longrightarrow>
            Game_makeMove (Game_makeMove (game s) i j x) i j CHR '' '' = game s)"
proof (intro conjI)
  let ?s0 = "s\<lparr>g_nodesSearched := 0, g_maxDepthReached := 0\<rparr>"
  have len0: "length (game ?s0) = 9" using assms by simp
  from find_loop_result[OF len0 subset_refl, of "- INT_MAX" "\<lparr>row = - 1, col = - 1\<rparr>" "[]"]
  obtain s' bv bm cand where r:
    "find_loop cells ?s0 (- INT_MAX) \<lparr>row = - 1, col = - 1\<rparr> [] = Some (s', bv, bm, cand)"
    "game s' = game s" by auto
  show "\<exists>mv s'. AI_findBestMove_impl ai rnd s = Some (mv, s') \<and> game s' = game s"
    unfolding AI_findBestMove_impl_def r(1) using r(2) by (simp add: Let_def)
next
  from predict_loop_result[OF assms subset_refl, of "- INT_MAX"]
  obtain s' bv where "predict_loop cells s (- INT_MAX) = Some (s', bv)" "game s' = game s"
    by auto
  then show "\<exists>p s'. AI_getPrediction ai s = Some (p, s') \<and> game s' = game s"
    by (simp add: AI_getPrediction_def)
next
  let ?s0 = "s\<lparr>g_nodesSearched := 0, g_maxDepthReached := 0\<rparr>"
  have len0: "length (game ?s0) = 9" using assms by simp
  from explain_loop_result[OF len0 subset_refl, of maxOut "[]" 0]
  show "\<exists>n out s'. AI_explain ai maxOut s = Some (n, out, s') \<and> game s' = game s"
    by (auto simp: AI_explain_def)
next
  show "\<forall>n depth isMax. empties (game s) < n \<longrightarrow>
            (\<exists>v s'. AI_minimax n s depth isMax = Some (v, s') \<and> game s' = game s)"
    using minimax_returns[OF assms] by blast
next
  show "\<forall>i j x. cell (game s) i j = CHR '' '' \<longrightarrow>
            Game_makeMove (Game_makeMove (game s) i j x) i j CHR '' '' = game s"
    using makeMove_undo by blast
qed

theorem search_restores_board_witness:
  "length (game \<lparr>game = ''XXOOOXX  '', g_nodesSearched = 5, g_maxDepthReached = 3\<rparr>) = 9
   \<and> map_option (\<lambda>r. game (snd r)) (AI_findBestMove_impl \<lparr>difficulty = 0, verbose = 2\<rparr> 4
         \<lparr>game = ''XXOOOXX  '', g_nodesSearched = 5, g_maxDepthReached = 3\<rparr>) = Some ''XXOOOXX  ''
   \<and> map_option (\<lambda>r. game (snd r)) (AI_getPrediction \<lparr>difficulty = 0, verbose = 2\<rparr>
         \<lparr>game = ''XXOOOXX  '', g_nodesSearched = 5, g_maxDepthReached = 3\<rparr>) = Some ''XXOOOXX  ''
   \<and> map_option (\<lambda>r. game (snd (snd r))) (AI_explain \<lparr>difficulty = 0, verbose = 2\<rparr> 9
         \<lparr>game = ''XXOOOXX  '', g_nodesSearched = 5, g_maxDepthReached = 3\<rparr>) = Some ''XXOOOXX  ''
   \<and> map_option (\<lambda>r. game (snd r)) (AI_minimax 3
         \<lparr>game = ''XXOOOXX  '', g_nodesSearched = 5, g_maxDepthReached = 3\<rparr> 0 True) = Some ''XXOOOXX  ''
   \<and> Game_makeMove (Game_makeMove ''XXOOOXX  '' 2 1 CHR ''O'') 2 1 CHR '' '' = ''XXOOOXX  ''"
proof -
  let ?s = "\<lparr>game = ''XXOOOXX  '', g_nodesSearched = 5, g_maxDepthReached = 3\<rparr>"
  let ?ai = "\<lparr>difficulty = 0, verbose = 2\<rparr>"
  have h1: "length (game ?s) = 9" by simp
  have e: "empties (game ?s) < 3" by (simp add: empties_def)
  have f: "cell (game ?s) 2 1 = CHR '' ''" by (simp add: cell_def)
  note t = search_restores_board[OF h1, of ?ai 4 9]
  from t obtain mv s1 where a: "AI_findBestMove_impl ?ai 4 ?s = Some (mv, s1)" "game s1 = game ?s"
    by blast
  from t obtain p s2 where b: "AI_getPrediction ?ai ?s = Some (p, s2)" "game s2 = game ?s"
    by blast
  from t obtain n out s3 where c: "AI_explain ?ai 9 ?s = Some (n, out, s3)" "game s3 = game ?s"
    by blast
  from t e obtain v s4 where d: "AI_minimax 3 ?s 0 True = Some (v, s4)" "game s4 = game ?s"
    by blast
  from t f have u: "Game_makeMove (Game_makeMove (game ?s) 2 1 CHR ''O'') 2 1 CHR '' '' = game ?s"
    by blast
  from a b c d u h1 show ?thesis by simp
qed

text \<open>
  C3. On every board of nine cells holding only spaces, X and O, \<^verbatim>\<open>Game_checkWin\<close>
  agrees with \<open>terminalResult\<close>, which follows the words of the specification: the first
  complete line in the order rows, columns, diagonal, anti-diagonal gives a win for the
  mark on it; with no complete line the result is Draw when no cell is empty and Ongoing
  otherwise. Each of the eight lines filled with one mark gives the win for that mark when
  the other mark completes no line, and the empty board is Ongoing (code 2).
\<close>

theorem checkWin_classifies:
  assumes "marks_ok g"
  shows "result_of_code (Game_checkWin g) = terminalResult g
     \<and> (\<forall>l \<in> set lines. \<forall>m. (m = CHR ''X'' \<or> m = CHR ''O'') \<and> line_of g m l \<and> \<not> has_line g (other m)
            \<longrightarrow> result_of_code (Game_checkWin g) = Win m)
     \<and> Game_checkWin Game_init = 2
     \<and> result_of_code (Game_checkWin Game_init) = Ongoing"
proof (intro conjI ballI allI impI)
  from assms have len: "length g = 9" by (simp add: marks_ok_def)
  show "result_of_code (Game_checkWin g) = terminalResult g"
  proof (cases "find (complete g) lines")
    case None
    then show ?thesis
      unfolding checkWin_find terminalResult_def
      by (simp add: movesLeft_list_ex[OF len] result_of_code_def)
  next
    case (Some l)
    then have "l \<in> set lines" "complete g l"
      using find_SomeD[of "complete g" lines l] by simp_all
    from complete_mark[OF assms this] obtain m where
      "m = CHR ''X'' \<or> m = CHR ''O''" "cell g (fst (fst l)) (snd (fst l)) = m" by blast
    then show ?thesis
      unfolding checkWin_find terminalResult_def Some
      by (auto simp: case_prod_beta result_of_code_def)
  qed
next
  fix l m
  assume "l \<in> set lines" and a: "(m = CHR ''X'' \<or> m = CHR ''O'') \<and> line_of g m l \<and> \<not> has_line g (other m)"
  from checkWin_line[OF assms this(1), of m] a
  show "result_of_code (Game_checkWin g) = Win m" by (auto simp: result_of_code_def)
next
  show e: "Game_checkWin Game_init = 2"
    by (simp add: Game_init_def Game_checkWin_def cell_def Game_isMovesLeft_def cells_def
          eval_nat_numeral)
  show "result_of_code (Game_checkWin Game_init) = Ongoing"
    unfolding e by (simp add: result_of_code_def)
qed

theorem checkWin_classifies_witness:
  "marks_ok ''XXXOO    ''
   \<and> result_of_code (Game_checkWin ''XXXOO    '') = terminalResult ''XXXOO    ''
   \<and> result_of_code (Game_checkWin ''XXXOO    '') = Win CHR ''X''"
proof -
  have ok: "marks_ok ''XXXOO    ''" by (simp add: marks_ok_def)
  have mem: "((0, 0), (0, 1), (0, 2)) \<in> set lines" by (simp add: lines_def)
  have ln: "line_of ''XXXOO    '' CHR ''X'' ((0, 0), (0, 1), (0, 2))" by (simp add: cell_def)
  have no: "\<not> has_line ''XXXOO    '' (other CHR ''X'')"
    by (simp add: has_line_def lines_def other_def cell_def)
  from checkWin_classifies[OF ok] mem ln no ok show ?thesis by blast
qed

text \<open>
  C7, as amended. \<^verbatim>\<open>Game_makeMove\<close> has no range check and no error result. For
  \<open>row\<close> and \<open>col\<close> in \<open>[0, 2]\<close> it stores the symbol in the addressed cell whatever the
  cell held, leaves the other eight cells alone, and agrees with \<open>apply_spec\<close>, the
  operation as the specification words it. Outside that range the specification's
  \<open>OutOfRange\<close> failure does not happen: the store is unchecked, and at \<open>(0, 3)\<close> it lands
  on cell \<open>(1, 0)\<close> (the counterexample below).
\<close>

theorem makeMove_in_range:
  assumes "0 \<le> r" and "r \<le> 2" and "0 \<le> c" and "c \<le> 2" and "length g = 9"
  shows "cell (Game_makeMove g r c m) r c = m
     \<and> length (Game_makeMove g r c m) = 9
     \<and> (\<forall>r' c'. 0 \<le> r' \<and> r' \<le> 2 \<and> 0 \<le> c' \<and> c' \<le> 2 \<and> (r', c') \<noteq> (r, c)
            \<longrightarrow> cell (Game_makeMove g r c m) r' c' = cell g r' c')
     \<and> apply_spec g r c m = Inr (Game_makeMove g r c m)"
proof -
  have mem: "(r, c) \<in> set cells" using assms(1-4) by (simp add: cells_iff)
  from cells_range[OF mem] have rg: "0 \<le> 3 * r + c" "3 * r + c < 9" by auto
  have "cell (Game_makeMove g r c m) r c = m"
    using cell_makeMove[OF assms(5) mem mem] by simp
  moreover have "\<forall>r' c'. 0 \<le> r' \<and> r' \<le> 2 \<and> 0 \<le> c' \<and> c' \<le> 2 \<and> (r', c') \<noteq> (r, c)
            \<longrightarrow> cell (Game_makeMove g r c m) r' c' = cell g r' c'"
  proof (intro allI impI)
    fix r' c'
    assume a: "0 \<le> r' \<and> r' \<le> 2 \<and> 0 \<le> c' \<and> c' \<le> 2 \<and> (r', c') \<noteq> (r, c)"
    then have "(r', c') \<in> set cells" by (simp add: cells_iff)
    from cell_makeMove[OF assms(5) mem this, of m] a
    show "cell (Game_makeMove g r c m) r' c' = cell g r' c'" by auto
  qed
  moreover have "apply_spec g r c m = Inr (Game_makeMove g r c m)"
    using assms(1-4) rg by (simp add: apply_spec_def Game_makeMove_def)
  ultimately show ?thesis using assms(5) by simp
qed

theorem makeMove_in_range_witness:
  "(0::int) \<le> 1 \<and> (1::int) \<le> 2 \<and> length ''XXOOOXX  '' = 9
   \<and> cell ''XXOOOXX  '' 1 1 = CHR ''O''
   \<and> cell (Game_makeMove ''XXOOOXX  '' 1 1 CHR ''X'') 1 1 = CHR ''X''
   \<and> cell (Game_makeMove ''XXOOOXX  '' 1 1 CHR ''X'') 0 2 = cell ''XXOOOXX  '' 0 2
   \<and> apply_spec ''XXOOOXX  '' 1 1 CHR ''X'' = Inr (Game_makeMove ''XXOOOXX  '' 1 1 CHR ''X'')"
proof -
  have h: "(0::int) \<le> 1" "(1::int) \<le> 2" "length ''XXOOOXX  '' = 9" by simp_all
  have o: "cell ''XXOOOXX  '' 1 1 = CHR ''O''" by (simp add: cell_def)
  from makeMove_in_range[OF h(1,2) h(1,2) h(3), of "CHR ''X''"] h o
  show ?thesis by simp
qed

theorem makeMove_in_range_counterexample:
  "apply_spec Game_init 0 3 CHR ''X'' = Inl OutOfRange
   \<and> Game_makeMove Game_init 0 3 CHR ''X'' = ''   X     ''
   \<and> cell (Game_makeMove Game_init 0 3 CHR ''X'') 1 0 = CHR ''X''
   \<and> Inr (Game_makeMove Game_init 0 3 CHR ''X'') \<noteq> apply_spec Game_init 0 3 CHR ''X''"
  by (simp add: apply_spec_def Game_makeMove_def Game_init_def cell_def eval_nat_numeral)

text \<open>
  C4, as amended. The match \<^verbatim>\<open>playAIVsAI\<close> with both difficulties Hard starts from the
  empty board with X, the minimizer's mark, to move (\<open>turn = 0\<close>, the only order the
  program has) and takes every move of both sides from \<^verbatim>\<open>AI_findBestMove\<close>. It returns,
  whatever the counters and the values of \<open>rand()\<close> are: the winner recorded is D, the
  final board is X X O / O O X / X O X and \<^verbatim>\<open>Game_checkWin\<close> classifies it as a draw.
  The order matters: \<^verbatim>\<open>AI_findBestMove\<close> always scores a move as a move of O, so the X side
  is given the squares best for O, and with O moving first the same loop ends in a win for O
  on O X . / O O X / X . O (the counterexample below).
\<close>

theorem optimal_selfplay_draw:
  "\<exists>s'. playAIVsAI 2 2 rnd nodes0 depth0 = Some (CHR ''D'', s')
        \<and> game s' = ''XXOOOXXOX''
        \<and> result_of_code (Game_checkWin (game s')) = Draw"
proof -
  let ?ai = "AI_setVerbose (AI_setDifficulty AI_init 2) 2"
  let ?s0 = "\<lparr>game = Game_init, g_nodesSearched = nodes0, g_maxDepthReached = depth0\<rparr>"
  have d: "\<And>turn :: int. difficulty (if turn = 0 then ?ai else ?ai) = 2"
    by (simp add: AI_setVerbose_def AI_setDifficulty_def AI_init_def)
  have g0: "game ?s0 = ''         ''" by (simp add: Game_init_def eval_nat_numeral)
  have "\<exists>s'. game s' = ''X        ''
      \<and> play_loop ?ai ?ai rnd ?s0 0 1 = play_loop ?ai ?ai rnd s' 1 2"
    by (rule play_step[OF g0 _ positions_ongoing(1) position0_best d]) (simp_all add: positions_next)
  then obtain s1 where g1: "game s1 = ''X        ''"
    and p1: "play_loop ?ai ?ai rnd ?s0 0 1 = play_loop ?ai ?ai rnd s1 1 2"
    by blast
  have "\<exists>s'. game s' = ''X   O    ''
      \<and> play_loop ?ai ?ai rnd s1 1 2 = play_loop ?ai ?ai rnd s' 0 3"
    by (rule play_step[OF g1 _ positions_ongoing(2) position1_best d]) (simp_all add: positions_next)
  then obtain s2 where g2: "game s2 = ''X   O    ''"
    and p2: "play_loop ?ai ?ai rnd s1 1 2 = play_loop ?ai ?ai rnd s2 0 3"
    by blast
  have "\<exists>s'. game s' = ''XX  O    ''
      \<and> play_loop ?ai ?ai rnd s2 0 3 = play_loop ?ai ?ai rnd s' 1 4"
    by (rule play_step[OF g2 _ positions_ongoing(3) position2_best d]) (simp_all add: positions_next)
  then obtain s3 where g3: "game s3 = ''XX  O    ''"
    and p3: "play_loop ?ai ?ai rnd s2 0 3 = play_loop ?ai ?ai rnd s3 1 4"
    by blast
  have "\<exists>s'. game s' = ''XXO O    ''
      \<and> play_loop ?ai ?ai rnd s3 1 4 = play_loop ?ai ?ai rnd s' 0 5"
    by (rule play_step[OF g3 _ positions_ongoing(4) position3_best d]) (simp_all add: positions_next)
  then obtain s4 where g4: "game s4 = ''XXO O    ''"
    and p4: "play_loop ?ai ?ai rnd s3 1 4 = play_loop ?ai ?ai rnd s4 0 5"
    by blast
  have "\<exists>s'. game s' = ''XXO O X  ''
      \<and> play_loop ?ai ?ai rnd s4 0 5 = play_loop ?ai ?ai rnd s' 1 6"
    by (rule play_step[OF g4 _ positions_ongoing(5) position4_best d]) (simp_all add: positions_next)
  then obtain s5 where g5: "game s5 = ''XXO O X  ''"
    and p5: "play_loop ?ai ?ai rnd s4 0 5 = play_loop ?ai ?ai rnd s5 1 6"
    by blast
  have "\<exists>s'. game s' = ''XXOOO X  ''
      \<and> play_loop ?ai ?ai rnd s5 1 6 = play_loop ?ai ?ai rnd s' 0 7"
    by (rule play_step[OF g5 _ positions_ongoing(6) position5_best d]) (simp_all add: positions_next)
  then obtain s6 where g6: "game s6 = ''XXOOO X  ''"
    and p6: "play_loop ?ai ?ai rnd s5 1 6 = play_loop ?ai ?ai rnd s6 0 7"
    by blast
  have "\<exists>s'. game s' = ''XXOOOXX  ''
      \<and> play_loop ?ai ?ai rnd s6 0 7 = play_loop ?ai ?ai rnd s' 1 8"
    by (rule play_step[OF g6 _ positions_ongoing(7) position6_best d]) (simp_all add: positions_next)
  then obtain s7 where g7: "game s7 = ''XXOOOXX  ''"
    and p7: "play_loop ?ai ?ai rnd s6 0 7 = play_loop ?ai ?ai rnd s7 1 8"
    by blast
  have "\<exists>s'. game s' = ''XXOOOXXO ''
      \<and> play_loop ?ai ?ai rnd s7 1 8 = play_loop ?ai ?ai rnd s' 0 9"
    by (rule play_step[OF g7 _ positions_ongoing(8) position7_best d]) (simp_all add: positions_next)
  then obtain s8 where g8: "game s8 = ''XXOOOXXO ''"
    and p8: "play_loop ?ai ?ai rnd s7 1 8 = play_loop ?ai ?ai rnd s8 0 9"
    by blast
  have "\<exists>s'. game s' = ''XXOOOXXOX''
      \<and> play_loop ?ai ?ai rnd s8 0 9 = play_loop ?ai ?ai rnd s' 1 10"
    by (rule play_step[OF g8 _ positions_ongoing(9) position8_best d]) (simp_all add: positions_next)
  then obtain s9 where g9: "game s9 = ''XXOOOXXOX''"
    and p9: "play_loop ?ai ?ai rnd s8 0 9 = play_loop ?ai ?ai rnd s9 1 10"
    by blast
  have "play_loop ?ai ?ai rnd s9 1 10 = Some (CHR ''D'', s9)"
    by (rule play_done) (simp add: g9 final_position_draw)
  with p1 p2 p3 p4 p5 p6 p7 p8 p9
  have "playAIVsAI 2 2 rnd nodes0 depth0 = Some (CHR ''D'', s9)"
    by (simp add: playAIVsAI_def)
  then show ?thesis using g9 by (simp add: final_position_draw result_of_code_def)
qed

theorem optimal_selfplay_draw_counterexample:
  "map_option fst
     (play_loop (AI_setVerbose (AI_setDifficulty AI_init 2) 2)
                (AI_setVerbose (AI_setDifficulty AI_init 2) 2) (\<lambda>step. 0)
                \<lparr>game = Game_init, g_nodesSearched = 0, g_maxDepthReached = 0\<rparr> 1 1)
     = Some CHR ''O''
   \<and> map_option (\<lambda>r. game (snd r))
     (play_loop (AI_setVerbose (AI_setDifficulty AI_init 2) 2)
                (AI_setVerbose (AI_setDifficulty AI_init 2) 2) (\<lambda>step. 0)
                \<lparr>game = Game_init, g_nodesSearched = 0, g_maxDepthReached = 0\<rparr> 1 1)
     = Some ''OX OOXX O''
   \<and> result_of_code (Game_checkWin ''OX OOXX O'') = Win CHR ''O''"
proof -
  have d: "difficulty (AI_setVerbose (AI_setDifficulty AI_init 2) 2) = 2"
    by (simp add: AI_setVerbose_def AI_setDifficulty_def AI_init_def)
  from maximizer_first_O_wins[OF d d, of "\<lambda>step. 0" 0 0] obtain s' where
    "play_loop (AI_setVerbose (AI_setDifficulty AI_init 2) 2)
                (AI_setVerbose (AI_setDifficulty AI_init 2) 2) (\<lambda>step. 0)
                \<lparr>game = Game_init, g_nodesSearched = 0, g_maxDepthReached = 0\<rparr> 1 1
       = Some (CHR ''O'', s')" "game s' = ''OX OOXX O''"
    by blast
  then show ?thesis by (simp add: replies_final result_of_code_def)
qed

text \<open>
  C9. On a board of nine cells with a legal move left, \<^verbatim>\<open>AI_getPrediction\<close> returns
  \<open>classify\<close> of the maximum top-level score: -1 (O, the maximizer, will win) when it is
  positive, 1 (X will win) when it is negative, 0 (draw) when it is zero. It takes no random
  value, any two engine configurations give the same answer, and on the empty board the
  answer is 0.
\<close>

theorem prediction_by_sign:
  assumes "length (game s) = 9" and "Game_isMovesLeft (game s)"
  shows "(\<exists>s'. AI_getPrediction ai s = Some (classify (best_score (game s)), s') \<and> game s' = game s)
     \<and> map_option fst (AI_getPrediction ai' s) = map_option fst (AI_getPrediction ai s)
     \<and> (\<exists>s'. AI_getPrediction ai \<lparr>game = Game_init, g_nodesSearched = nodes0, g_maxDepthReached = depth0\<rparr>
              = Some (0, s'))"
proof -
  from predict_unfold[OF assms, of ai] obtain s1 where
    a: "AI_getPrediction ai s = Some (classify (best_score (game s)), s1)" "game s1 = game s" by blast
  from predict_unfold[OF assms, of ai'] obtain s2 where
    b: "AI_getPrediction ai' s = Some (classify (best_score (game s)), s2)" by blast
  let ?e = "\<lparr>game = Game_init, g_nodesSearched = nodes0, g_maxDepthReached = depth0\<rparr>"
  have ge: "game ?e = ''         ''" by (simp add: Game_init_def eval_nat_numeral)
  have "length (game ?e) = 9" "Game_isMovesLeft (game ?e)"
    unfolding ge using ongoing_movesLeft[OF positions_ongoing(1)] by simp_all
  from predict_unfold[OF this, of ai] obtain s3 where
    "AI_getPrediction ai ?e = Some (classify (best_score (game ?e)), s3)" by blast
  then have c: "AI_getPrediction ai ?e = Some (0, s3)"
    unfolding ge empty_board_best_score by (simp add: classify_def)
  from a b c show ?thesis by simp
qed

theorem prediction_by_sign_witness:
  "length (game \<lparr>game = ''XXOOOXX  '', g_nodesSearched = 5, g_maxDepthReached = 3\<rparr>) = 9
   \<and> Game_isMovesLeft (game \<lparr>game = ''XXOOOXX  '', g_nodesSearched = 5, g_maxDepthReached = 3\<rparr>)
   \<and> best_score ''XXOOOXX  '' = 0
   \<and> map_option fst (AI_getPrediction \<lparr>difficulty = 0, verbose = 0\<rparr>
         \<lparr>game = ''XXOOOXX  '', g_nodesSearched = 5, g_maxDepthReached = 3\<rparr>) = Some 0
   \<and> map_option fst (AI_getPrediction \<lparr>difficulty = 2, verbose = 1\<rparr>
         \<lparr>game = Game_init, g_nodesSearched = 0, g_maxDepthReached = 0\<rparr>) = Some 0"
proof -
  let ?s = "\<lparr>game = ''XXOOOXX  '', g_nodesSearched = 5, g_maxDepthReached = 3\<rparr>"
  have h1: "length (game ?s) = 9" by simp
  have h2: "Game_isMovesLeft (game ?s)"
    by (simp add: Game_isMovesLeft_def cells_def cell_def)
  have bs: "best_score ''XXOOOXX  '' = 0" by code_simp
  from prediction_by_sign[OF h1 h2, of "\<lparr>difficulty = 0, verbose = 0\<rparr>" _ 0 0]
  obtain s1 where a: "AI_getPrediction \<lparr>difficulty = 0, verbose = 0\<rparr> ?s
      = Some (classify (best_score (game ?s)), s1)" by blast
  from prediction_by_sign[OF h1 h2, of "\<lparr>difficulty = 2, verbose = 1\<rparr>" _ 0 0]
  obtain s2 where b: "AI_getPrediction \<lparr>difficulty = 2, verbose = 1\<rparr>
      \<lparr>game = Game_init, g_nodesSearched = 0, g_maxDepthReached = 0\<rparr> = Some (0, s2)" by blast
  from a b h1 h2 bs show ?thesis by (simp add: classify_def)
qed

text \<open>
  C8. The counters after a top-level call, on the board X X O / O O X / X O . with the
  counters standing at 100 nodes and depth 7 from earlier searches.
  \<^verbatim>\<open>AI_explain\<close> and \<^verbatim>\<open>AI_findBestMove_impl\<close> set both counters to 0 first and leave
  1 node and depth 0, the figures of that call alone. \<^verbatim>\<open>AI_getPrediction\<close> has no such
  assignments: it leaves 101 nodes and depth 7.
\<close>

theorem prediction_keeps_counters:
  "AI_getPrediction ai \<lparr>game = ''XXOOOXXO '', g_nodesSearched = 100, g_maxDepthReached = 7\<rparr>
     = Some (0, \<lparr>game = ''XXOOOXXO '', g_nodesSearched = 101, g_maxDepthReached = 7\<rparr>)
   \<and> AI_explain ai 9 \<lparr>game = ''XXOOOXXO '', g_nodesSearched = 100, g_maxDepthReached = 7\<rparr>
     = Some (1, [\<lparr>cand_row = 2, cand_col = 2, cand_score = 0\<rparr>],
             \<lparr>game = ''XXOOOXXO '', g_nodesSearched = 1, g_maxDepthReached = 0\<rparr>)
   \<and> map_option snd (AI_findBestMove_impl \<lparr>difficulty = 2, verbose = 0\<rparr> 0
         \<lparr>game = ''XXOOOXXO '', g_nodesSearched = 100, g_maxDepthReached = 7\<rparr>)
     = Some \<lparr>game = ''XXOOOXXO '', g_nodesSearched = 1, g_maxDepthReached = 0\<rparr>"
  by (simp add: AI_getPrediction_def AI_explain_def AI_findBestMove_impl_def cells_def cell_def
        search_fuel_def eval_nat_numeral Game_makeMove_def AI_evaluate_def Game_checkWin_def
        Game_isMovesLeft_def Let_def INT_MAX_def)

text \<open>
  C1, as amended. On every board of nine cells over space, X and O, for either side to
  move and every depth from \<open>10 - INT_MAX\<close> to \<open>INT_MAX\<close> (the depths at which
  \<open>score - depth\<close> and \<open>score + depth\<close> fit a C \<^verbatim>\<open>int\<close>; the search itself only produces
  0 to 9), the score \<^verbatim>\<open>AI_minimax\<close> returns is decided by the first complete line in scan
  order: \<open>10 - depth\<close> when it is a line of O (the maximizer's mark), \<open>-10 + depth\<close> when
  it is a line of X, and 0 when there is no complete line and the board is full. One of
  these three line cases always holds. When only one mark has a completed line the first
  line is that mark's, and there is no first line exactly when neither mark has one.
  Consequently, searched from depth 0 on a board with no line, a board where O to move can
  complete a line scores 9 and a board where X to move can complete a line scores -9.
\<close>

theorem minimax_terminal_scores:
  assumes "marks_ok (game s)" and "empties (game s) < n"
    and "10 - INT_MAX \<le> depth" and "depth \<le> INT_MAX"
  shows "(first_line_mark (game s) = Some CHR ''O''
            \<longrightarrow> map_option fst (AI_minimax n s depth isMax) = Some (10 - depth))
     \<and> (first_line_mark (game s) = Some CHR ''X''
            \<longrightarrow> map_option fst (AI_minimax n s depth isMax) = Some (- 10 + depth))
     \<and> (first_line_mark (game s) = None \<and> \<not> Game_isMovesLeft (game s)
            \<longrightarrow> map_option fst (AI_minimax n s depth isMax) = Some 0)
     \<and> (first_line_mark (game s) = None \<or> first_line_mark (game s) = Some CHR ''X''
          \<or> first_line_mark (game s) = Some CHR ''O'')
     \<and> (has_line (game s) CHR ''O'' \<and> \<not> has_line (game s) CHR ''X''
            \<longrightarrow> first_line_mark (game s) = Some CHR ''O'')
     \<and> (has_line (game s) CHR ''X'' \<and> \<not> has_line (game s) CHR ''O''
            \<longrightarrow> first_line_mark (game s) = Some CHR ''X'')
     \<and> (first_line_mark (game s) = None
            \<longleftrightarrow> \<not> has_line (game s) CHR ''X'' \<and> \<not> has_line (game s) CHR ''O'')
     \<and> (first_line_mark (game s) = None
          \<and> list_ex (\<lambda>(i, j). has_line (Game_makeMove (game s) i j CHR ''O'') CHR ''O'') (legal (game s))
            \<longrightarrow> map_option fst (AI_minimax n s 0 True) = Some 9)
     \<and> (first_line_mark (game s) = None
          \<and> list_ex (\<lambda>(i, j). has_line (Game_makeMove (game s) i j CHR ''X'') CHR ''X'') (legal (game s))
            \<longrightarrow> map_option fst (AI_minimax n s 0 False) = Some (- 9))"
proof -
  from assms(1) have len: "length (game s) = 9" by (simp add: marks_ok_def)
  have ret: "\<And>d m. map_option fst (AI_minimax n s d m) = Some (minimax_value (game s) d m)"
  proof -
    fix d m
    from minimax_returns[OF len assms(2), of d m] obtain s' where
      "AI_minimax n s d m = Some (minimax_value (game s) d m, s')" by blast
    then show "map_option fst (AI_minimax n s d m) = Some (minimax_value (game s) d m)" by simp
  qed
  note nl = no_line_iff[OF assms(1)]
  show ?thesis
  proof (intro conjI impI)
    assume "first_line_mark (game s) = Some CHR ''O''"
    from value_first_O[OF len this, of depth isMax]
    show "map_option fst (AI_minimax n s depth isMax) = Some (10 - depth)" by (simp add: ret)
  next
    assume "first_line_mark (game s) = Some CHR ''X''"
    from value_first_X[OF len this, of depth isMax]
    show "map_option fst (AI_minimax n s depth isMax) = Some (- 10 + depth)" by (simp add: ret)
  next
    assume "first_line_mark (game s) = None \<and> \<not> Game_isMovesLeft (game s)"
    with value_no_line_full[OF len, of depth isMax]
    show "map_option fst (AI_minimax n s depth isMax) = Some 0" by (simp add: ret)
  next
    show "first_line_mark (game s) = None \<or> first_line_mark (game s) = Some CHR ''X''
          \<or> first_line_mark (game s) = Some CHR ''O''"
      by (rule first_line_mark_cases[OF assms(1)])
  next
    assume "has_line (game s) CHR ''O'' \<and> \<not> has_line (game s) CHR ''X''"
    with first_line_mark_only[OF assms(1), of "CHR ''O''"]
    show "first_line_mark (game s) = Some CHR ''O''" by (simp add: other_def)
  next
    assume "has_line (game s) CHR ''X'' \<and> \<not> has_line (game s) CHR ''O''"
    with first_line_mark_only[OF assms(1), of "CHR ''X''"]
    show "first_line_mark (game s) = Some CHR ''X''" by (simp add: other_def)
  next
    show "first_line_mark (game s) = None
            \<longleftrightarrow> \<not> has_line (game s) CHR ''X'' \<and> \<not> has_line (game s) CHR ''O''"
      by (rule nl)
  next
    assume a: "first_line_mark (game s) = None
          \<and> list_ex (\<lambda>(i, j). has_line (Game_makeMove (game s) i j CHR ''O'') CHR ''O'') (legal (game s))"
    then obtain i j where "(i, j) \<in> set (legal (game s))"
        "has_line (Game_makeMove (game s) i j CHR ''O'') CHR ''O''"
      by (auto simp: list_ex_iff)
    from value_O_wins_next[OF assms(1) _ _ this] a nl
    show "map_option fst (AI_minimax n s 0 True) = Some 9" by (simp add: ret)
  next
    assume a: "first_line_mark (game s) = None
          \<and> list_ex (\<lambda>(i, j). has_line (Game_makeMove (game s) i j CHR ''X'') CHR ''X'') (legal (game s))"
    then obtain i j where "(i, j) \<in> set (legal (game s))"
        "has_line (Game_makeMove (game s) i j CHR ''X'') CHR ''X''"
      by (auto simp: list_ex_iff)
    from value_X_wins_next[OF assms(1) _ _ this] a nl
    show "map_option fst (AI_minimax n s 0 False) = Some (- 9)" by (simp add: ret)
  qed
qed


theorem minimax_terminal_scores_witness:
  "marks_ok (game \<lparr>game = ''OO XX    '', g_nodesSearched = 0, g_maxDepthReached = 0\<rparr>)
   \<and> empties (game \<lparr>game = ''OO XX    '', g_nodesSearched = 0, g_maxDepthReached = 0\<rparr>) < 6
   \<and> 10 - INT_MAX \<le> 0 \<and> 0 \<le> INT_MAX
   \<and> first_line_mark ''OO XX    '' = None
   \<and> has_line (Game_makeMove ''OO XX    '' 0 2 CHR ''O'') CHR ''O''
   \<and> map_option fst (AI_minimax 6 \<lparr>game = ''OO XX    '', g_nodesSearched = 0, g_maxDepthReached = 0\<rparr> 0 True)
       = Some 9
   \<and> map_option fst (AI_minimax 6 \<lparr>game = ''OO XX    '', g_nodesSearched = 0, g_maxDepthReached = 0\<rparr> 0 False)
       = Some (- 9)
   \<and> marks_ok (game \<lparr>game = ''XXXOOO   '', g_nodesSearched = 0, g_maxDepthReached = 0\<rparr>)
   \<and> empties (game \<lparr>game = ''XXXOOO   '', g_nodesSearched = 0, g_maxDepthReached = 0\<rparr>) < 4
   \<and> 10 - INT_MAX \<le> 3 \<and> 3 \<le> INT_MAX
   \<and> has_line ''XXXOOO   '' CHR ''O''
   \<and> first_line_mark ''XXXOOO   '' = Some CHR ''X''
   \<and> map_option fst (AI_minimax 4 \<lparr>game = ''XXXOOO   '', g_nodesSearched = 0, g_maxDepthReached = 0\<rparr> 3 True)
       = Some (- 7)"
proof -
  let ?s = "\<lparr>game = ''OO XX    '', g_nodesSearched = 0, g_maxDepthReached = 0\<rparr>"
  let ?b = "\<lparr>game = ''XXXOOO   '', g_nodesSearched = 0, g_maxDepthReached = 0\<rparr>"
  have h1: "marks_ok (game ?s)" by (simp add: marks_ok_def)
  have h2: "empties (game ?s) < 6" by (simp add: empties_def)
  have h3: "10 - INT_MAX \<le> 0" "0 \<le> INT_MAX" by (simp_all add: INT_MAX_def)
  have fl: "first_line_mark (game ?s) = None"
    by (simp add: first_line_mark_def lines_def cell_def)
  have wo: "has_line (Game_makeMove (game ?s) 0 2 CHR ''O'') CHR ''O''"
    by (simp add: has_line_def lines_def cell_def Game_makeMove_def)
  have wx: "has_line (Game_makeMove (game ?s) 1 2 CHR ''X'') CHR ''X''"
    by (simp add: has_line_def lines_def cell_def Game_makeMove_def)
  have lg: "(0, 2) \<in> set (legal (game ?s))" "(1, 2) \<in> set (legal (game ?s))"
    by (simp_all add: legal_def cells_def cell_def)
  from lg(1) wo
  have eo: "list_ex (\<lambda>(i, j). has_line (Game_makeMove (game ?s) i j CHR ''O'') CHR ''O'') (legal (game ?s))"
    unfolding list_ex_iff by blast
  from lg(2) wx
  have ex: "list_ex (\<lambda>(i, j). has_line (Game_makeMove (game ?s) i j CHR ''X'') CHR ''X'') (legal (game ?s))"
    unfolding list_ex_iff by blast
  from minimax_terminal_scores[OF h1 h2 h3, of True] fl eo
  have a: "map_option fst (AI_minimax 6 ?s 0 True) = Some 9" by blast
  from minimax_terminal_scores[OF h1 h2 h3, of False] fl ex
  have b: "map_option fst (AI_minimax 6 ?s 0 False) = Some (- 9)" by blast
  have k1: "marks_ok (game ?b)" by (simp add: marks_ok_def)
  have k2: "empties (game ?b) < 4" by (simp add: empties_def)
  have k3: "10 - INT_MAX \<le> 3" "3 \<le> INT_MAX" by (simp_all add: INT_MAX_def)
  have ho: "has_line (game ?b) CHR ''O''" by (simp add: has_line_def lines_def cell_def)
  have fx: "first_line_mark (game ?b) = Some CHR ''X''"
    by (simp add: first_line_mark_def lines_def cell_def)
  from minimax_terminal_scores[OF k1 k2 k3, of True] fx
  have c: "map_option fst (AI_minimax 4 ?b 3 True) = Some (- 10 + 3)" by blast
  from a b c h1 h2 h3 fl wo k1 k2 k3 ho fx show ?thesis by simp
qed

theorem minimax_terminal_scores_counterexample:
  "has_line ''XXXOOO   '' CHR ''O''
   \<and> map_option fst (AI_minimax 1 \<lparr>game = ''XXXOOO   '', g_nodesSearched = 0, g_maxDepthReached = 0\<rparr> 0 True)
       = Some (- 10)
   \<and> (- 10 :: int) \<noteq> 10 - 0"
  by (simp add: has_line_def lines_def cell_def AI_evaluate_def Game_checkWin_def Let_def)

end
